theory Spec2Isabelle
  imports Complex_Main "HOL-Library.Sublist"
begin

section \<open>Strings and the JavaScript built-ins the decoders call\<close>

text \<open>
  Source strings are lists of code units. The model uses \<^typ>\<open>char\<close>, so the text that a
  decoder or the typewriter receives ranges over the code units 0..255; string values
  produced by a \<^verbatim>\<open>\uXXXX\<close> escape inside JSON are kept as numbers (\<open>jstr\<close>), since they
  may exceed that range. Chunks are modelled after \<^verbatim>\<open>TextDecoder.decode\<close>: a chunk is the
  decoded text of one read.
\<close>

type_synonym jstr = "nat list"

datatype json =
    JNull
  | JBool bool
  | JNumber int int
  | JString jstr
  | JArray "json list"
  | JObject "(jstr \<times> json) list"

text \<open>
  \<open>JNumber m e\<close> is the decimal number \<open>m * 10 ^ e\<close> that the number token denotes;
  \<open>JObject\<close> keeps the members in source order. Both are finer than the JavaScript value
  (a double, a property map): equal model values are equal JavaScript values.
\<close>

datatype token = TLBrace | TRBrace | TLBracket | TRBracket | TColon | TComma | TLit json

definition newline :: char where
  "newline = CHR 0x0A"

definition dquote :: char where
  "dquote = CHR 0x22"

definition backslash :: char where
  "backslash = CHR 0x5C"

definition json_ws :: "char \<Rightarrow> bool" where
  "json_ws c = (c = CHR 0x09 \<or> c = CHR 0x0A \<or> c = CHR 0x0D \<or> c = CHR 0x20)"

definition is_digit :: "char \<Rightarrow> bool" where
  "is_digit c = ((48::nat) \<le> of_char c \<and> of_char c \<le> (57::nat))"

definition digit_val :: "char \<Rightarrow> nat" where
  "digit_val c = of_char c - 48"

definition hex_val :: "char \<Rightarrow> nat option" where
  "hex_val c =
     (let n = (of_char c :: nat) in
      if 48 \<le> n \<and> n \<le> 57 then Some (n - 48)
      else if 65 \<le> n \<and> n \<le> 70 then Some (n - 55)
      else if 97 \<le> n \<and> n \<le> 102 then Some (n - 87)
      else None)"

definition hex4 :: "char \<Rightarrow> char \<Rightarrow> char \<Rightarrow> char \<Rightarrow> nat option" where
  "hex4 a b c d =
     (case (hex_val a, hex_val b, hex_val c, hex_val d) of
        (Some w, Some x, Some y, Some z) \<Rightarrow> Some (((w * 16 + x) * 16 + y) * 16 + z)
      | _ \<Rightarrow> None)"

definition escape_char :: "char \<Rightarrow> nat option" where
  "escape_char e =
     (if e = dquote then Some 34
      else if e = backslash then Some 92
      else if e = CHR ''/'' then Some 47
      else if e = CHR ''b'' then Some 8
      else if e = CHR ''f'' then Some 12
      else if e = CHR ''n'' then Some 10
      else if e = CHR ''r'' then Some 13
      else if e = CHR ''t'' then Some 9
      else None)"

text \<open>The characters of a JSON string token, read after its opening quote.\<close>

fun lex_string :: "string \<Rightarrow> jstr \<Rightarrow> (jstr \<times> string) option" where
  "lex_string [] acc = None"
| "lex_string (c # cs) acc =
     (if c = dquote then Some (rev acc, cs)
      else if c = backslash then
        (case cs of
           [] \<Rightarrow> None
         | e # cs' \<Rightarrow>
             if e = CHR ''u'' then
               (case cs' of
                  h1 # h2 # h3 # h4 # cs'' \<Rightarrow>
                    (case hex4 h1 h2 h3 h4 of
                       None \<Rightarrow> None
                     | Some n \<Rightarrow> lex_string cs'' (n # acc))
                | _ \<Rightarrow> None)
             else
               (case escape_char e of
                  None \<Rightarrow> None
                | Some n \<Rightarrow> lex_string cs' (n # acc)))
      else if (of_char c :: nat) < 32 then None
      else lex_string cs (of_char c # acc))"

definition digits_val :: "string \<Rightarrow> nat" where
  "digits_val ds = foldl (\<lambda>n d. n * 10 + digit_val d) 0 ds"

text \<open>
  A JSON number token: \<^verbatim>\<open>-? (0 | [1-9][0-9]*) (. [0-9]+)? ([eE] [+-]? [0-9]+)?\<close>.
  The result is the value and the text after the token.
\<close>

definition lex_int_part :: "string \<Rightarrow> (string \<times> string) option" where
  "lex_int_part s =
     (case s of
        [] \<Rightarrow> None
      | c # cs \<Rightarrow>
          if c = CHR ''0'' then Some ([c], cs)
          else if is_digit c then Some (takeWhile is_digit s, dropWhile is_digit s)
          else None)"

definition lex_frac_part :: "string \<Rightarrow> (string \<times> string) option" where
  "lex_frac_part s =
     (case s of
        c # cs \<Rightarrow>
          if c = CHR ''.'' then
            (if takeWhile is_digit cs = [] then None
             else Some (takeWhile is_digit cs, dropWhile is_digit cs))
          else Some ([], s)
      | [] \<Rightarrow> Some ([], s))"

definition lex_exp_digits :: "bool \<Rightarrow> string \<Rightarrow> (int \<times> string) option" where
  "lex_exp_digits neg s =
     (if takeWhile is_digit s = [] then None
      else Some ((if neg then - int (digits_val (takeWhile is_digit s))
                  else int (digits_val (takeWhile is_digit s))),
                 dropWhile is_digit s))"

definition lex_exp_part :: "string \<Rightarrow> (int \<times> string) option" where
  "lex_exp_part s =
     (case s of
        c # cs \<Rightarrow>
          if c = CHR ''e'' \<or> c = CHR ''E'' then
            (case cs of
               d # ds \<Rightarrow>
                 if d = CHR ''+'' then lex_exp_digits False ds
                 else if d = CHR ''-'' then lex_exp_digits True ds
                 else lex_exp_digits False cs
             | [] \<Rightarrow> None)
          else Some (0, s)
      | [] \<Rightarrow> Some (0, s))"

definition lex_unsigned :: "bool \<Rightarrow> string \<Rightarrow> (json \<times> string) option" where
  "lex_unsigned neg s =
     (case lex_int_part s of
        None \<Rightarrow> None
      | Some (ip, s1) \<Rightarrow>
          (case lex_frac_part s1 of
             None \<Rightarrow> None
           | Some (fp, s2) \<Rightarrow>
               (case lex_exp_part s2 of
                  None \<Rightarrow> None
                | Some (ex, s3) \<Rightarrow>
                    Some (JNumber ((if neg then - 1 else 1) * int (digits_val (ip @ fp)))
                                  (ex - int (length fp)), s3))))"

definition lex_number :: "string \<Rightarrow> (json \<times> string) option" where
  "lex_number s =
     (case s of
        c # cs \<Rightarrow> if c = CHR ''-'' then lex_unsigned True cs else lex_unsigned False s
      | [] \<Rightarrow> None)"

lemma lex_string_shorter:
  "lex_string s acc = Some (v, r) \<Longrightarrow> length r < length s"
proof (induction s acc rule: lex_string.induct)
  case (1 acc)
  then show ?case by simp
next
  case (2 c cs acc)
  show ?case
  proof (cases "c = dquote")
    case True
    with 2(4) show ?thesis by simp
  next
    case nq: False
    show ?thesis
    proof (cases "c = backslash")
      case bs: True
      show ?thesis
      proof (cases cs)
        case Nil
        with nq bs 2(4) show ?thesis by simp
      next
        case (Cons e cs')
        show ?thesis
        proof (cases "e = CHR ''u''")
          case True
          from nq bs Cons True 2(4) obtain h1 h2 h3 h4 cs'' n where
            cs': "cs' = h1 # h2 # h3 # h4 # cs''" and hx: "hex4 h1 h2 h3 h4 = Some n"
            and rec: "lex_string cs'' (n # acc) = Some (v, r)"
            by (simp split: list.splits option.splits)
          from 2(1)[OF nq bs Cons True cs' refl refl refl hx rec] show ?thesis
            using Cons cs' by simp
        next
          case False
          from nq bs Cons False 2(4) obtain n where
            es: "escape_char e = Some n" and rec: "lex_string cs' (n # acc) = Some (v, r)"
            by (simp split: option.splits)
          from 2(2)[OF nq bs Cons False es rec] show ?thesis
            using Cons by simp
        qed
      qed
    next
      case False
      with nq 2(4) have c32: "\<not> (of_char c :: nat) < 32" and rec: "lex_string cs (of_char c # acc) = Some (v, r)"
        by (simp_all split: if_splits)
      from 2(3)[OF nq False c32 rec] show ?thesis by simp
    qed
  qed
qed
lemma lex_int_part_shorter:
  "lex_int_part s = Some (ip, r) \<Longrightarrow> length r < length s"
  by (cases s)
     (auto simp: lex_int_part_def le_imp_less_Suc length_dropWhile_le split: if_splits)

lemma lex_frac_part_shorter:
  "lex_frac_part s = Some (fp, r) \<Longrightarrow> length r \<le> length s"
  by (cases s)
     (auto simp: lex_frac_part_def le_SucI length_dropWhile_le split: if_splits)

lemma lex_exp_digits_shorter:
  "lex_exp_digits neg s = Some (ex, r) \<Longrightarrow> length r \<le> length s"
  by (auto simp: lex_exp_digits_def length_dropWhile_le split: if_splits)

lemma lex_exp_part_shorter:
  "lex_exp_part s = Some (ex, r) \<Longrightarrow> length r \<le> length s"
  by (cases s)
     (auto simp: lex_exp_part_def split: if_splits list.splits
           dest!: lex_exp_digits_shorter)

lemma lex_unsigned_shorter:
  "lex_unsigned neg s = Some (v, r) \<Longrightarrow> length r < length s"
  by (auto simp: lex_unsigned_def split: option.splits
           dest!: lex_int_part_shorter lex_frac_part_shorter lex_exp_part_shorter)

lemma lex_number_shorter:
  "lex_number s = Some (v, r) \<Longrightarrow> length r < length s"
  by (cases s)
     (auto simp: lex_number_def split: if_splits dest!: lex_unsigned_shorter)

text \<open>The literal names \<^verbatim>\<open>true\<close>, \<^verbatim>\<open>false\<close> and \<^verbatim>\<open>null\<close>.\<close>

definition lex_literal :: "string \<Rightarrow> (json \<times> string) option" where
  "lex_literal s =
     (if prefix ''true'' s then Some (JBool True, drop 4 s)
      else if prefix ''false'' s then Some (JBool False, drop 5 s)
      else if prefix ''null'' s then Some (JNull, drop 4 s)
      else None)"

definition lex_scalar :: "string \<Rightarrow> (json \<times> string) option" where
  "lex_scalar s =
     (case s of
        [] \<Rightarrow> None
      | c # cs \<Rightarrow>
          if c = dquote then
            (case lex_string cs [] of
               None \<Rightarrow> None
             | Some (str, r) \<Rightarrow> Some (JString str, r))
          else if c = CHR ''-'' \<or> is_digit c then lex_number s
          else lex_literal s)"

definition punctuation :: "char \<Rightarrow> token option" where
  "punctuation c =
     (if c = CHR ''{'' then Some TLBrace
      else if c = CHR ''}'' then Some TRBrace
      else if c = CHR ''['' then Some TLBracket
      else if c = CHR '']'' then Some TRBracket
      else if c = CHR '':'' then Some TColon
      else if c = CHR '','' then Some TComma
      else None)"

lemma lex_literal_shorter:
  "lex_literal s = Some (v, r) \<Longrightarrow> length r < length s"
  by (auto simp: lex_literal_def prefix_def split: if_splits)

lemma lex_scalar_shorter:
  "lex_scalar s = Some (v, r) \<Longrightarrow> length r < length s"
  by (cases s)
     (auto simp: lex_scalar_def less_Suc_eq split: if_splits option.splits
           dest!: lex_string_shorter lex_number_shorter lex_literal_shorter)

text \<open>Tokens of a JSON text, with insignificant whitespace skipped.\<close>

function lex :: "string \<Rightarrow> token list option" where
  "lex [] = Some []"
| "lex (c # cs) =
     (if json_ws c then lex cs
      else
        (case punctuation c of
           Some t \<Rightarrow> map_option ((#) t) (lex cs)
         | None \<Rightarrow>
             (case lex_scalar (c # cs) of
                None \<Rightarrow> None
              | Some (v, r) \<Rightarrow> map_option ((#) (TLit v)) (lex r))))"
  by pat_completeness auto
termination
proof (relation "measure length")
  show "wf (measure length)" by simp
next
  fix c :: char and cs :: string and x2 :: "json \<times> string" and v r
  assume "lex_scalar (c # cs) = Some x2" and "(v, r) = x2"
  then have "lex_scalar (c # cs) = Some (v, r)" by simp
  from lex_scalar_shorter[OF this] show "(r, c # cs) \<in> measure length" by simp
qed simp_all

text \<open>
  The grammar over tokens, as a pushdown recogniser that builds the value: the open
  containers are the stack, the state says which token may come next.
\<close>

datatype frame = FArr "json list" | FObj "(jstr \<times> json) list" jstr

datatype pstate =
    PValue
  | PFirstElem
  | PAfterElem "json list"
  | PFirstKey
  | PKey "(jstr \<times> json) list"
  | PColon "(jstr \<times> json) list" jstr
  | PAfterMember "(jstr \<times> json) list"
  | PDone json

fun complete_value :: "json \<Rightarrow> frame list \<Rightarrow> pstate \<times> frame list" where
  "complete_value v [] = (PDone v, [])"
| "complete_value v (FArr xs # st) = (PAfterElem (v # xs), st)"
| "complete_value v (FObj ms k # st) = (PAfterMember ((k, v) # ms), st)"

fun start_value :: "token \<Rightarrow> frame list \<Rightarrow> (pstate \<times> frame list) option" where
  "start_value (TLit v) st = Some (complete_value v st)"
| "start_value TLBracket st = Some (PFirstElem, st)"
| "start_value TLBrace st = Some (PFirstKey, st)"
| "start_value _ st = None"

fun parse_step :: "pstate \<times> frame list \<Rightarrow> token \<Rightarrow> (pstate \<times> frame list) option" where
  "parse_step (PValue, st) t = start_value t st"
| "parse_step (PFirstElem, st) t =
     (if t = TRBracket then Some (complete_value (JArray []) st)
      else start_value t (FArr [] # st))"
| "parse_step (PAfterElem xs, st) t =
     (if t = TComma then Some (PValue, FArr xs # st)
      else if t = TRBracket then Some (complete_value (JArray (rev xs)) st)
      else None)"
| "parse_step (PFirstKey, st) t =
     (case t of
        TRBrace \<Rightarrow> Some (complete_value (JObject []) st)
      | TLit (JString k) \<Rightarrow> Some (PColon [] k, st)
      | _ \<Rightarrow> None)"
| "parse_step (PKey ms, st) t =
     (case t of
        TLit (JString k) \<Rightarrow> Some (PColon ms k, st)
      | _ \<Rightarrow> None)"
| "parse_step (PColon ms k, st) t =
     (if t = TColon then Some (PValue, FObj ms k # st) else None)"
| "parse_step (PAfterMember ms, st) t =
     (if t = TComma then Some (PKey ms, st)
      else if t = TRBrace then Some (complete_value (JObject (rev ms)) st)
      else None)"
| "parse_step (PDone v, st) t = None"

fun parse_tokens :: "pstate \<times> frame list \<Rightarrow> token list \<Rightarrow> json option" where
  "parse_tokens cfg [] = (case cfg of (PDone v, _) \<Rightarrow> Some v | _ \<Rightarrow> None)"
| "parse_tokens cfg (t # ts) =
     (case parse_step cfg t of
        None \<Rightarrow> None
      | Some cfg' \<Rightarrow> parse_tokens cfg' ts)"

text \<open>
  \<^verbatim>\<open>JSON.parse\<close>: \<open>None\<close> is the thrown \<^verbatim>\<open>SyntaxError\<close>, which both decoders catch.
\<close>

definition JSON_parse :: "string \<Rightarrow> json option" where
  "JSON_parse s =
     (case lex s of
        None \<Rightarrow> None
      | Some ts \<Rightarrow> parse_tokens (PValue, []) ts)"

text \<open>
  JavaScript truthiness of a parsed value, as tested by \<^verbatim>\<open>if (processedChunk)\<close>.
  A number is falsy when its double is zero: the mantissa is zero, or the decimal rounds
  to zero (it is at most \<open>2 ^ - 1075\<close>, half the least subnormal).
\<close>

fun truthy :: "json \<Rightarrow> bool" where
  "truthy JNull = False"
| "truthy (JBool b) = b"
| "truthy (JNumber m e) =
     (m \<noteq> 0 \<and> (0 \<le> e \<or> 10 ^ nat (- e) < \<bar>m\<bar> * 2 ^ 1075))"
| "truthy (JString s) = (s \<noteq> [])"
| "truthy (JArray xs) = True"
| "truthy (JObject ms) = True"

text \<open>\<^verbatim>\<open>s.split("\n")\<close>: the pieces between newlines; never the empty list.\<close>

fun split_nl :: "string \<Rightarrow> string list" where
  "split_nl [] = [[]]"
| "split_nl (c # cs) =
     (if c = newline then [] # split_nl cs
      else (case split_nl cs of
              [] \<Rightarrow> [[c]]
            | l # ls \<Rightarrow> (c # l) # ls))"

section \<open>The newline-delimited JSON decoder\<close>

definition processSingleChunk :: "string \<Rightarrow> string option \<Rightarrow> json option \<times> string option" where
  "processSingleChunk chunk currPartialChunk =
     (let completeChunk = (case currPartialChunk of None \<Rightarrow> [] | Some p \<Rightarrow> p) @ chunk in
      case JSON_parse completeChunk of
        Some chunkJson \<Rightarrow> (Some chunkJson, None)
      | None \<Rightarrow> (None, Some completeChunk))"

text \<open>The body of the \<^verbatim>\<open>forEach\<close> over the chunk sections.\<close>

definition section_step :: "json list \<times> string option \<Rightarrow> string \<Rightarrow> json list \<times> string option" where
  "section_step acc chunk =
     (case acc of (parsedChunkSections, currPartialChunk) \<Rightarrow>
        (case processSingleChunk chunk currPartialChunk of
           (Some processedChunk, partialChunk) \<Rightarrow>
             if truthy processedChunk then (parsedChunkSections @ [processedChunk], None)
             else (parsedChunkSections, partialChunk)
         | (None, partialChunk) \<Rightarrow> (parsedChunkSections, partialChunk)))"

definition processRawChunkString :: "string \<Rightarrow> string option \<Rightarrow> json list \<times> string option" where
  "processRawChunkString rawChunkString previousPartialChunk =
     (if rawChunkString = [] then ([], None)
      else
        let chunkSections = filter (\<lambda>chunk. length chunk > 0) (split_nl rawChunkString)
        in foldl section_step ([], previousPartialChunk) chunkSections)"

text \<open>
  The sequential use of the decoder on the chunks of a stream: the returned partial is
  passed to the next call and the emitted events are concatenated.
\<close>

fun decode_chunks :: "string list \<Rightarrow> string option \<Rightarrow> json list \<times> string option" where
  "decode_chunks [] p = ([], p)"
| "decode_chunks (c # cs) p =
     (case processRawChunkString c p of
        (evs, p') \<Rightarrow> (case decode_chunks cs p' of (evs', p'') \<Rightarrow> (evs @ evs', p'')))"

text \<open>
  What a pending \<^verbatim>\<open>reader.read()\<close> resolves to: nothing at all (no reader, or an
  undefined result), the end of the stream, or the decoded text of a chunk.
\<close>

datatype read_result = ReadAbsent | ReadDone | ReadValue string

text \<open>
  How a generator stands after the reads supplied so far: it returned, it threw
  \<^verbatim>\<open>"Unable to process chunk"\<close>, or it is suspended at the next \<^verbatim>\<open>await\<close>.
\<close>

datatype outcome = Returned | Threw | Awaiting

fun handleStream_loop :: "string option \<Rightarrow> read_result list \<Rightarrow> json list list \<times> outcome" where
  "handleStream_loop previousPartialChunk [] = ([], Awaiting)"
| "handleStream_loop previousPartialChunk (ReadAbsent # rs) = ([], Threw)"
| "handleStream_loop previousPartialChunk (ReadDone # rs) = ([], Returned)"
| "handleStream_loop previousPartialChunk (ReadValue v # rs) =
     (case processRawChunkString v previousPartialChunk of
        (completedChunks, partialChunk) \<Rightarrow>
          if completedChunks = [] \<and> (partialChunk = None \<or> partialChunk = Some []) then ([], Returned)
          else
            (case handleStream_loop partialChunk rs of
               (yielded, out) \<Rightarrow> (completedChunks # yielded, out)))"

definition handleStream :: "read_result list \<Rightarrow> json list list \<times> outcome" where
  "handleStream rs = handleStream_loop None rs"

section \<open>The Server-Sent-Events decoder\<close>

text \<open>
  The characters that \<^verbatim>\<open>trim()\<close> strips and \<^verbatim>\<open>\s\<close> matches, among the code units
  0..255: tab, line feed, vertical tab, form feed, carriage return, space, no-break space.
\<close>

definition js_space :: "char \<Rightarrow> bool" where
  "js_space c =
     (c = CHR 0x09 \<or> c = CHR 0x0A \<or> c = CHR 0x0B \<or> c = CHR 0x0C \<or> c = CHR 0x0D
      \<or> c = CHR 0x20 \<or> c = CHR 0xA0)"

definition trim :: "string \<Rightarrow> string" where
  "trim s = rev (dropWhile js_space (rev (dropWhile js_space s)))"

text \<open>
  \<^verbatim>\<open>jsonContent.match(/\{[^{}]*\}/g)\<close>. \<open>brace_body\<close> reads \<^verbatim>\<open>[^{}]*\}\<close> after an
  opening brace and gives the text between the braces and the text after the match;
  the matches are found left to right, each search resuming after the previous match.
  No match (\<^verbatim>\<open>null\<close>) is the empty list.
\<close>

fun brace_body :: "string \<Rightarrow> (string \<times> string) option" where
  "brace_body [] = None"
| "brace_body (c # cs) =
     (if c = CHR ''}'' then Some ([], cs)
      else if c = CHR ''{'' then None
      else (case brace_body cs of
              None \<Rightarrow> None
            | Some (body, r) \<Rightarrow> Some (c # body, r)))"

lemma brace_body_shorter:
  "brace_body s = Some (body, r) \<Longrightarrow> length r < length s"
  by (induction s arbitrary: body) (auto split: if_splits option.splits)

function match_braces :: "string \<Rightarrow> string list" where
  "match_braces [] = []"
| "match_braces (c # cs) =
     (if c = CHR ''{'' then
        (case brace_body cs of
           Some (body, r) \<Rightarrow> (CHR ''{'' # body @ [CHR ''}'']) # match_braces r
         | None \<Rightarrow> match_braces cs)
      else match_braces cs)"
  by pat_completeness auto
termination
proof (relation "measure length")
  show "wf (measure length)" by simp
next
  fix c :: char and cs :: string and x2 :: "string \<times> string" and body r
  assume "brace_body cs = Some x2" and "(body, r) = x2"
  then have "brace_body cs = Some (body, r)" by simp
  from brace_body_shorter[OF this] show "(r, c # cs) \<in> measure length" by simp
qed simp_all

text \<open>
  What one payload yields: the parsed payload, or, when it does not parse, every
  brace-matched substring that parses, in match order (the others are logged).
  The loop body and the final flush of the source hold the same code.
\<close>

definition sse_payload_events :: "string \<Rightarrow> json list" where
  "sse_payload_events jsonContent =
     (case JSON_parse jsonContent of
        Some data \<Rightarrow> [data]
      | None \<Rightarrow> List.map_filter JSON_parse (match_braces jsonContent))"

definition sse_line_events :: "string \<Rightarrow> json list" where
  "sse_line_events line =
     (if trim line = [] then []
      else if prefix ''data: '' line then sse_payload_events (drop 6 line)
      else [])"

text \<open>One pass of the read loop: the chunk joins the buffer, the last piece is held over.\<close>

definition sse_chunk :: "string \<Rightarrow> string \<Rightarrow> json list \<times> string" where
  "sse_chunk buffer chunk =
     (let lines = split_nl (buffer @ chunk) in
      (concat (map sse_line_events (butlast lines)), last lines))"

definition sse_flush :: "string \<Rightarrow> json list" where
  "sse_flush buffer =
     (if trim buffer \<noteq> [] then
        (if prefix ''data: '' buffer then sse_payload_events (drop 6 buffer) else [])
      else [])"

fun handleSSEStream_loop :: "string \<Rightarrow> read_result list \<Rightarrow> json list \<times> outcome" where
  "handleSSEStream_loop buffer [] = ([], Awaiting)"
| "handleSSEStream_loop buffer (ReadAbsent # rs) = ([], Threw)"
| "handleSSEStream_loop buffer (ReadDone # rs) = (sse_flush buffer, Returned)"
| "handleSSEStream_loop buffer (ReadValue v # rs) =
     (case sse_chunk buffer v of
        (evs, buffer') \<Rightarrow>
          (case handleSSEStream_loop buffer' rs of
             (yielded, out) \<Rightarrow> (evs @ yielded, out)))"

definition handleSSEStream :: "read_result list \<Rightarrow> json list \<times> outcome" where
  "handleSSEStream rs = handleSSEStream_loop [] rs"

section \<open>The citation filter of the typewriter\<close>

text \<open>
  \<^verbatim>\<open>s.replace(re, rep)\<close> for a global regular expression. The matcher says whether the
  expression matches at the front of the remaining text (its first argument: is this
  index 0, for \<^verbatim>\<open>^\<close>) and gives the replacement and the text after the match. After an
  empty match the scan copies one character and goes on, as the engine does.
\<close>

function gsub :: "(bool \<Rightarrow> string \<Rightarrow> (string \<times> string) option) \<Rightarrow> bool \<Rightarrow> string \<Rightarrow> string" where
  "gsub m at_start [] = (case m at_start [] of Some (rep, r) \<Rightarrow> rep | None \<Rightarrow> [])"
| "gsub m at_start (c # cs) =
     (case m at_start (c # cs) of
        Some (rep, r) \<Rightarrow>
          if length r \<le> length cs then rep @ gsub m False r
          else rep @ c # gsub m False cs
      | None \<Rightarrow> c # gsub m False cs)"
  by pat_completeness auto
termination
  by (relation "measure (\<lambda>(m, b, s). length s)") auto

text \<open>\<^verbatim>\<open>[^()]*\)\<close> after an opening parenthesis: the text after the closing one.\<close>

fun paren_inner :: "string \<Rightarrow> string option" where
  "paren_inner [] = None"
| "paren_inner (c # cs) =
     (if c = CHR '')'' then Some cs
      else if c = CHR ''('' then None
      else paren_inner cs)"

lemma paren_inner_shorter:
  "paren_inner s = Some r \<Longrightarrow> length r < length s"
  by (induction s) (auto split: if_splits)

text \<open>
  \<^verbatim>\<open>(?:[^()]|\([^()]*\))*\)\<close>: the greedy star stops at the first character that starts
  no alternative; giving back iterations never helps, since the character there is not a
  closing parenthesis.
\<close>

function url_tail :: "string \<Rightarrow> string option" where
  "url_tail [] = None"
| "url_tail (c # cs) =
     (if c = CHR '')'' then Some cs
      else if c = CHR ''('' then
        (case paren_inner cs of
           None \<Rightarrow> None
         | Some r \<Rightarrow> url_tail r)
      else url_tail cs)"
  by pat_completeness auto
termination
  by (relation "measure length") (auto dest: paren_inner_shorter)

lemma url_tail_shorter:
  "url_tail s = Some r \<Longrightarrow> length r < length s"
proof (induction s rule: url_tail.induct)
  case 1
  then show ?case by simp
next
  case (2 c cs)
  then show ?case
    by (fastforce split: if_splits option.splits dest: paren_inner_shorter)
qed

definition cite_class :: "char \<Rightarrow> bool" where
  "cite_class c = (is_digit c \<or> c = CHR '','' \<or> js_space c \<or> c = CHR ''-'')"

text \<open>\<^verbatim>\<open>\[\[[\d,\s-]+\]\]\((?:[^()]|\([^()]*\))*\)\<close> at the front of the text.\<close>

definition match_double_cite :: "string \<Rightarrow> string option" where
  "match_double_cite s =
     (case s of
        a # b # r \<Rightarrow>
          if a = CHR ''['' \<and> b = CHR ''['' \<and> takeWhile cite_class r \<noteq> [] then
            (case dropWhile cite_class r of
               x # y # z # r2 \<Rightarrow>
                 if x = CHR '']'' \<and> y = CHR '']'' \<and> z = CHR ''('' then url_tail r2 else None
             | _ \<Rightarrow> None)
          else None
      | _ \<Rightarrow> None)"

text \<open>\<^verbatim>\<open>(?:[,\s-]\s*\d+)*\]\<close> after the first run of digits.\<close>

function num_list_rest :: "string \<Rightarrow> string option" where
  "num_list_rest [] = None"
| "num_list_rest (c # cs) =
     (if c = CHR '']'' then Some cs
      else if c = CHR '','' \<or> js_space c \<or> c = CHR ''-'' then
        (if takeWhile is_digit (dropWhile js_space cs) = [] then None
         else num_list_rest (dropWhile is_digit (dropWhile js_space cs)))
      else None)"
  by pat_completeness auto
termination
proof (relation "measure length")
  show "wf (measure length)" by simp
next
  fix c :: char and cs :: string
  have "length (dropWhile is_digit (dropWhile js_space cs)) \<le> length (dropWhile js_space cs)"
    by (rule length_dropWhile_le)
  also have "\<dots> \<le> length cs" by (rule length_dropWhile_le)
  finally show "(dropWhile is_digit (dropWhile js_space cs), c # cs) \<in> measure length"
    by simp
qed

text \<open>\<^verbatim>\<open>\[(\d+(?:[,\s-]\s*\d+)*)\]\((?:[^()]|\([^()]*\))*\)\<close> at the front of the text.\<close>

definition match_single_cite :: "string \<Rightarrow> string option" where
  "match_single_cite s =
     (case s of
        a # r \<Rightarrow>
          if a = CHR ''['' \<and> takeWhile is_digit r \<noteq> [] then
            (case num_list_rest (dropWhile is_digit r) of
               Some (z # r2) \<Rightarrow> if z = CHR ''('' then url_tail r2 else None
             | _ \<Rightarrow> None)
          else None
      | [] \<Rightarrow> None)"

text \<open>\<^verbatim>\<open>\((https?:\/\/[^\s)]+)\)\<close> at the front of the text.\<close>

definition url_char :: "char \<Rightarrow> bool" where
  "url_char c = (\<not> js_space c \<and> c \<noteq> CHR '')'')"

definition url_paren :: "string \<Rightarrow> string option" where
  "url_paren s =
     (if prefix ''(http'' s then
        (let r = drop 5 s;
             r1 = (if prefix ''s://'' r then Some (drop 4 r)
                   else if prefix ''://'' r then Some (drop 3 r)
                   else None)
         in case r1 of
              None \<Rightarrow> None
            | Some u \<Rightarrow>
                if takeWhile url_char u = [] then None
                else (case dropWhile url_char u of
                        z # r2 \<Rightarrow> if z = CHR '')'' then Some r2 else None
                      | [] \<Rightarrow> None))
      else None)"

text \<open>
  \<^verbatim>\<open>(^|[^\]])\((https?:\/\/[^\s)]+)\)\<close> with the replacement \<^verbatim>\<open>$1\<close>: the first
  alternative is tried at index 0 only, the second consumes one character other than
  a closing bracket, which the replacement keeps.
\<close>

definition match_orphan_url :: "bool \<Rightarrow> string \<Rightarrow> (string \<times> string) option" where
  "match_orphan_url at_start s =
     (case (if at_start then url_paren s else None) of
        Some r \<Rightarrow> Some ([], r)
      | None \<Rightarrow>
          (case s of
             c # cs \<Rightarrow>
               if c \<noteq> CHR '']'' then
                 (case url_paren cs of
                    Some r \<Rightarrow> Some ([c], r)
                  | None \<Rightarrow> None)
               else None
           | [] \<Rightarrow> None))"

definition filterCitationsForTyping :: "string \<Rightarrow> string" where
  "filterCitationsForTyping content =
     gsub match_orphan_url True
       (gsub (\<lambda>b s. map_option (Pair []) (match_single_cite s)) True
          (gsub (\<lambda>b s. map_option (Pair []) (match_double_cite s)) True content))"

section \<open>The typewriter hook\<close>

text \<open>
  \<^verbatim>\<open>useTypewriterEffect\<close> as a state machine over the events of a mounted instance:
  a render with new props, a timer firing, a change of the tab's visibility, a call of
  the returned setters, the unmount. The optional callbacks \<^verbatim>\<open>setChatState\<close> and
  \<^verbatim>\<open>setCompleteMessageID\<close> belong to the caller and do not touch the hook's own state;
  they are left out.
\<close>

record props =
  content :: string
  isComplete :: bool
  shared :: bool
  chatSessionId :: "string option"
  messageId :: "int option"

text \<open>
  What a scheduled \<^verbatim>\<open>typeNextChar\<close> closes over: the local variables
  \<^verbatim>\<open>fullContent\<close> and \<^verbatim>\<open>currentIndex\<close> of its \<^verbatim>\<open>continueTyping\<close> call, and the
  \<^verbatim>\<open>isTypingComplete\<close> of the render that made the call.
\<close>

record typing_closure =
  cl_fullContent :: string
  cl_currentIndex :: nat
  cl_isTypingComplete :: bool

text \<open>
  The two state variables and the five refs of the hook, with the \<^verbatim>\<open>setTimeout\<close>
  callbacks that are pending, oldest first (all have the same delay), and the next timer id.
\<close>

record hook =
  displayedContent :: string
  isTypingComplete :: bool
  timeoutRef :: "nat option"
  isTypingRef :: bool
  lastContentRef :: string
  currentTypingIndexRef :: nat
  typingDisabledRef :: bool
  timers :: "(nat \<times> typing_closure) list"
  nextTimer :: nat

text \<open>
  A mounted instance: the hook, the props of the last render, and what the two
  registered closures captured from the render that registered them: the
  \<^verbatim>\<open>visibilitychange\<close> listener (dependencies \<^verbatim>\<open>[content, isTypingComplete]\<close>) and the
  cleanup of the persistence effect (dependencies
  \<^verbatim>\<open>[chatSessionId, messageId, isTypingComplete]\<close>).
\<close>

record component =
  hk :: hook
  rendered :: props
  vis_content :: string
  vis_isTypingComplete :: bool
  vis_displayedContent :: string
  per_chatSessionId :: "string option"
  per_messageId :: "int option"
  per_isTypingComplete :: bool

type_synonym storage = "string \<rightharpoonup> string"

function show_nat :: "nat \<Rightarrow> string" where
  "show_nat n =
     (if n < 10 then [char_of (48 + n)]
      else show_nat (n div 10) @ [char_of (48 + n mod 10)])"
  by pat_completeness auto
termination
  by (relation "measure id") auto

definition show_int :: "int \<Rightarrow> string" where
  "show_int i = (if i < 0 then CHR ''-'' # show_nat (nat (- i)) else show_nat (nat i))"

definition storage_key :: "string option \<Rightarrow> int option \<Rightarrow> string option" where
  "storage_key sid mid =
     (case sid of
        None \<Rightarrow> None
      | Some s \<Rightarrow>
          (case mid of
             None \<Rightarrow> None
           | Some m \<Rightarrow> Some (''disableTyping:'' @ s @ '':'' @ show_int m)))"

definition initial_hook :: hook where
  "initial_hook =
     \<lparr>displayedContent = [], isTypingComplete = False, timeoutRef = None,
      isTypingRef = False, lastContentRef = [], currentTypingIndexRef = 0,
      typingDisabledRef = False, timers = [], nextTimer = 1\<rparr>"

text \<open>The effect that runs on mount only.\<close>

definition mount_effect :: "props \<Rightarrow> storage \<Rightarrow> hook \<Rightarrow> hook" where
  "mount_effect p store h =
     (case storage_key (chatSessionId p) (messageId p) of
        None \<Rightarrow> h
      | Some key \<Rightarrow>
          if store key = Some ''1'' then
            h\<lparr>typingDisabledRef := True,
              displayedContent := content p,
              isTypingComplete := (if isComplete p then True else isTypingComplete h),
              lastContentRef := content p\<rparr>
          else h)"

definition setTimeout :: "typing_closure \<Rightarrow> hook \<Rightarrow> hook" where
  "setTimeout cl h =
     h\<lparr>timers := timers h @ [(nextTimer h, cl)],
       timeoutRef := Some (nextTimer h),
       nextTimer := Suc (nextTimer h)\<rparr>"

definition clearTimeout :: "nat \<Rightarrow> hook \<Rightarrow> hook" where
  "clearTimeout i h = h\<lparr>timers := filter (\<lambda>t. fst t \<noteq> i) (timers h)\<rparr>"

definition typeNextChar :: "typing_closure \<Rightarrow> hook \<Rightarrow> hook" where
  "typeNextChar cl h =
     (if cl_currentIndex cl < length (cl_fullContent cl) \<and> \<not> cl_isTypingComplete cl
         \<and> isTypingRef h then
        (let currentIndex = Suc (cl_currentIndex cl);
             fullContent = filterCitationsForTyping (cl_fullContent cl);
             h1 = h\<lparr>currentTypingIndexRef := currentIndex,
                    displayedContent := take currentIndex fullContent\<rparr>
         in if currentIndex < length fullContent then
              setTimeout (cl\<lparr>cl_fullContent := fullContent, cl_currentIndex := currentIndex\<rparr>) h1
            else h1\<lparr>isTypingRef := False\<rparr>)
      else h\<lparr>isTypingRef := False\<rparr>)"

text \<open>
  \<open>continueTyping\<close> and \<open>startTyping\<close> take, first, the \<^verbatim>\<open>isTypingComplete\<close> of the
  render whose closure is called.
\<close>

definition continueTyping :: "bool \<Rightarrow> string \<Rightarrow> nat \<Rightarrow> hook \<Rightarrow> hook" where
  "continueTyping rc fullContent startIndex h =
     (if isTypingRef h then h
      else typeNextChar
             \<lparr>cl_fullContent = fullContent, cl_currentIndex = startIndex,
              cl_isTypingComplete = rc\<rparr>
             (h\<lparr>isTypingRef := True\<rparr>))"

definition startTyping :: "bool \<Rightarrow> string \<Rightarrow> nat \<Rightarrow> hook \<Rightarrow> hook" where
  "startTyping rc fullContent startIndex h =
     (if isTypingRef h then h
      else continueTyping rc fullContent startIndex
             (h\<lparr>isTypingRef := True, currentTypingIndexRef := startIndex\<rparr>))"

text \<open>The effect on \<^verbatim>\<open>[content, isComplete]\<close>.\<close>

definition content_effect :: "props \<Rightarrow> bool \<Rightarrow> hook \<Rightarrow> hook" where
  "content_effect p rc h =
     (if typingDisabledRef h then
        h\<lparr>displayedContent := content p,
          lastContentRef := content p,
          isTypingComplete := (if isComplete p then True else isTypingComplete h)\<rparr>
      else if content p \<noteq> lastContentRef h \<and> \<not> prefix (lastContentRef h) (content p) then
        (let h1 = h\<lparr>displayedContent := [], isTypingComplete := False, isTypingRef := False,
                    currentTypingIndexRef := 0, lastContentRef := content p\<rparr>
         in if content p \<noteq> [] \<and> length (content p) > 0 then startTyping rc (content p) 0 h1
            else h1)
      else if length (content p) > length (lastContentRef h)
              \<and> prefix (lastContentRef h) (content p) then
        (let newContent = drop (currentTypingIndexRef h) (content p);
             h1 = (if length newContent > 0
                   then continueTyping rc (content p) (currentTypingIndexRef h) h
                   else h)
         in h1\<lparr>lastContentRef := content p\<rparr>)
      else h)"

definition showFinalContentWithCitations :: "props \<Rightarrow> hook \<Rightarrow> hook" where
  "showFinalContentWithCitations p h =
     h\<lparr>displayedContent := content p,
       isTypingComplete := True,
       currentTypingIndexRef := length (content p)\<rparr>"

text \<open>The effect on \<^verbatim>\<open>[isComplete, shared, content, \<dots>, chatSessionId]\<close>.\<close>

definition completion_effect :: "props \<Rightarrow> hook \<Rightarrow> hook" where
  "completion_effect p h =
     (if isComplete p \<or> shared p then
        (let h1 = (case timeoutRef h of
                     Some i \<Rightarrow> (clearTimeout i h)\<lparr>timeoutRef := None\<rparr>
                   | None \<Rightarrow> h)
         in showFinalContentWithCitations p (h1\<lparr>isTypingRef := False\<rparr>))
      else h)"

text \<open>The cleanup of the persistence effect, with the values its closure captured.\<close>

definition persist_cleanup :: "component \<Rightarrow> storage \<Rightarrow> storage" where
  "persist_cleanup c store =
     (case storage_key (per_chatSessionId c) (per_messageId c) of
        None \<Rightarrow> store
      | Some key \<Rightarrow>
          if \<not> per_isTypingComplete c then store(key \<mapsto> ''1'')
          else store(key := None))"

text \<open>The \<^verbatim>\<open>visibilitychange\<close> listener, for the two values of \<^verbatim>\<open>visibilityState\<close>.\<close>

definition on_hidden :: "component \<Rightarrow> hook \<Rightarrow> hook" where
  "on_hidden c h =
     (if vis_isTypingComplete c \<or> vis_content c = vis_displayedContent c then
        h\<lparr>displayedContent := vis_content c, isTypingComplete := True\<rparr>
      else h)"

definition on_visible :: "component \<Rightarrow> hook \<Rightarrow> hook" where
  "on_visible c h =
     (if \<not> vis_isTypingComplete c
         \<and> length (vis_content c) > length (vis_displayedContent c)
         \<and> \<not> isTypingRef h then
        (let h1 = (case timeoutRef h of
                     Some i \<Rightarrow> (clearTimeout i h)\<lparr>timeoutRef := None\<rparr>
                   | None \<Rightarrow> h);
             h2 = h1\<lparr>isTypingRef := False\<rparr>;
             remainingContent = drop (length (vis_displayedContent c)) (vis_content c)
         in if length remainingContent > 0
            then startTyping (vis_isTypingComplete c) (vis_content c)
                   (length (vis_displayedContent c)) h2
            else h2)
      else h)"

text \<open>
  The render that follows a change of state. A change of \<^verbatim>\<open>displayedContent\<close> alone
  re-runs no effect; a change of \<^verbatim>\<open>isTypingComplete\<close> runs the cleanup of the
  persistence effect with the old closure and registers both closures anew.
\<close>

definition rerender :: "bool \<Rightarrow> storage \<times> component \<Rightarrow> storage \<times> component" where
  "rerender rc w =
     (case w of (store, c) \<Rightarrow>
        if isTypingComplete (hk c) \<noteq> rc then
          (persist_cleanup c store,
           c\<lparr>per_isTypingComplete := isTypingComplete (hk c),
             vis_content := content (rendered c),
             vis_isTypingComplete := isTypingComplete (hk c),
             vis_displayedContent := displayedContent (hk c)\<rparr>)
        else (store, c))"

text \<open>Mounting: the first render, then every effect in source order.\<close>

definition mount :: "props \<Rightarrow> storage \<Rightarrow> storage \<times> component" where
  "mount p store =
     (let h1 = mount_effect p store initial_hook;
          h2 = content_effect p False h1;
          h3 = completion_effect p h2
      in rerender False
           (store,
            \<lparr>hk = h3, rendered = p,
             vis_content = content p, vis_isTypingComplete = False, vis_displayedContent = [],
             per_chatSessionId = chatSessionId p, per_messageId = messageId p,
             per_isTypingComplete = False\<rparr>))"

text \<open>A render with new props: the effects whose dependencies changed run in source order.\<close>

definition update :: "props \<Rightarrow> storage \<times> component \<Rightarrow> storage \<times> component" where
  "update p' w =
     (case w of (store, c) \<Rightarrow>
        (let p = rendered c;
             rc = isTypingComplete (hk c);
             rd = displayedContent (hk c);
             key_changed = (chatSessionId p' \<noteq> chatSessionId p \<or> messageId p' \<noteq> messageId p);
             h1 = (if content p' \<noteq> content p \<or> isComplete p' \<noteq> isComplete p
                   then content_effect p' rc (hk c) else hk c);
             h2 = (if isComplete p' \<noteq> isComplete p \<or> shared p' \<noteq> shared p
                      \<or> content p' \<noteq> content p \<or> chatSessionId p' \<noteq> chatSessionId p
                   then completion_effect p' h1 else h1);
             store1 = (if key_changed then persist_cleanup c store else store);
             c1 = c\<lparr>hk := h2, rendered := p'\<rparr>;
             c2 = (if key_changed
                   then c1\<lparr>per_chatSessionId := chatSessionId p', per_messageId := messageId p',
                           per_isTypingComplete := rc\<rparr>
                   else c1);
             c3 = (if content p' \<noteq> content p
                   then c2\<lparr>vis_content := content p', vis_isTypingComplete := rc,
                           vis_displayedContent := rd\<rparr>
                   else c2)
         in rerender rc (store1, c3)))"

text \<open>The oldest pending timer fires.\<close>

definition tick :: "storage \<times> component \<Rightarrow> storage \<times> component" where
  "tick w =
     (case w of (store, c) \<Rightarrow>
        (case timers (hk c) of
           [] \<Rightarrow> (store, c)
         | (i, cl) # rest \<Rightarrow>
             rerender (isTypingComplete (hk c))
               (store, c\<lparr>hk := typeNextChar cl ((hk c)\<lparr>timers := rest\<rparr>)\<rparr>)))"

definition visibility_hidden :: "storage \<times> component \<Rightarrow> storage \<times> component" where
  "visibility_hidden w =
     (case w of (store, c) \<Rightarrow>
        rerender (isTypingComplete (hk c)) (store, c\<lparr>hk := on_hidden c (hk c)\<rparr>))"

definition visibility_visible :: "storage \<times> component \<Rightarrow> storage \<times> component" where
  "visibility_visible w =
     (case w of (store, c) \<Rightarrow>
        rerender (isTypingComplete (hk c)) (store, c\<lparr>hk := on_visible c (hk c)\<rparr>))"

text \<open>Unmounting runs the cleanups; the instance is discarded, the storage stays.\<close>

definition unmount :: "storage \<times> component \<Rightarrow> storage" where
  "unmount w = (case w of (store, c) \<Rightarrow> persist_cleanup c store)"

text \<open>
  The hook returns its two state setters; the caller calls them from its own effects
  (\<^verbatim>\<open>setDisplayedContent(contentString); setIsTypingComplete(true)\<close> in \<^verbatim>\<open>Messages.tsx\<close>).
  \<open>None\<close> stands for a setter that is not called.
\<close>

definition caller_sets ::
  "string option \<Rightarrow> bool option \<Rightarrow> storage \<times> component \<Rightarrow> storage \<times> component" where
  "caller_sets d k w =
     (case w of (store, c) \<Rightarrow>
        (let h1 = (case d of None \<Rightarrow> hk c | Some s \<Rightarrow> (hk c)\<lparr>displayedContent := s\<rparr>);
             h2 = (case k of None \<Rightarrow> h1 | Some b \<Rightarrow> h1\<lparr>isTypingComplete := b\<rparr>)
         in rerender (isTypingComplete (hk c)) (store, c\<lparr>hk := h2\<rparr>)))"

text \<open>
  The caller's effect on \<^verbatim>\<open>stopGeneratingDisplayString\<close> (\<^verbatim>\<open>Messages.tsx\<close>, the external
  stop): it calls both setters, with the content string that it also passes to the hook.
\<close>

definition stop_generating :: "storage \<times> component \<Rightarrow> storage \<times> component" where
  "stop_generating w = caller_sets (Some (content (rendered (snd w)))) (Some True) w"

datatype event = Update props | Tick | Hidden | Visible | CallerSets "string option" "bool option"

fun apply_event :: "event \<Rightarrow> storage \<times> component \<Rightarrow> storage \<times> component" where
  "apply_event (Update p) w = update p w"
| "apply_event Tick w = tick w"
| "apply_event Hidden w = visibility_hidden w"
| "apply_event Visible w = visibility_visible w"
| "apply_event (CallerSets d k) w = caller_sets d k w"

definition run :: "event list \<Rightarrow> storage \<times> component \<Rightarrow> storage \<times> component" where
  "run es w = foldl (\<lambda>w e. apply_event e w) w es"

section \<open>Predicates used to state the properties\<close>

text \<open>
  A split of a stream into chunks whose boundaries the decoder can bridge: no chunk is
  empty, and a chunk that stops inside a line (it does not end with a newline and the
  next one does not begin with one) leaves a held partial, that is, the line fragment
  decoded so far is not by itself a complete JSON text.
\<close>

fun boundaries_ok :: "string option \<Rightarrow> string list \<Rightarrow> bool" where
  "boundaries_ok p [] = True"
| "boundaries_ok p [c] = (c \<noteq> [])"
| "boundaries_ok p (c # c' # cs) =
     (c \<noteq> []
      \<and> (last c = newline \<or> hd c' = newline \<or> snd (processRawChunkString c p) \<noteq> None)
      \<and> boundaries_ok (snd (processRawChunkString c p)) (c' # cs))"


text \<open>The text that a partial holds; a null partial holds none.\<close>

definition held :: "string option \<Rightarrow> string" where
  "held p = (case p of None \<Rightarrow> [] | Some s \<Rightarrow> s)"

text \<open>The reveal index of a mounted instance.\<close>

definition revealIndex :: "storage \<times> component \<Rightarrow> nat" where
  "revealIndex w = currentTypingIndexRef (hk (snd w))"

text \<open>
  A sequence of events in which every update delivers a content that extends the
  content before it (the first argument); the other events, which deliver no content,
  may occur anywhere in between.
\<close>

fun updates_extend :: "string \<Rightarrow> event list \<Rightarrow> bool" where
  "updates_extend c [] = True"
| "updates_extend c (Update p # es) = (prefix c (content p) \<and> updates_extend (content p) es)"
| "updates_extend c (Tick # es) = updates_extend c es"
| "updates_extend c (Hidden # es) = updates_extend c es"
| "updates_extend c (Visible # es) = updates_extend c es"
| "updates_extend c (CallerSets d k # es) = updates_extend c es"

text \<open>
  A pattern of a global replace matches somewhere in a string: at its start or at a
  later position. A text has a citation left when one of the three patterns of the
  citation filter matches somewhere in it.
\<close>

fun matches_somewhere ::
  "(bool \<Rightarrow> string \<Rightarrow> (string \<times> string) option) \<Rightarrow> bool \<Rightarrow> string \<Rightarrow> bool" where
  "matches_somewhere m at_start [] = (case m at_start [] of Some x \<Rightarrow> True | None \<Rightarrow> False)"
| "matches_somewhere m at_start (c # cs) =
     (case m at_start (c # cs) of Some x \<Rightarrow> True | None \<Rightarrow> matches_somewhere m False cs)"

definition has_citation :: "string \<Rightarrow> bool" where
  "has_citation t =
     (matches_somewhere (\<lambda>b s. map_option (Pair []) (match_double_cite s)) True t
      \<or> matches_somewhere (\<lambda>b s. map_option (Pair []) (match_single_cite s)) True t
      \<or> matches_somewhere match_orphan_url True t)"

text \<open>
  The invariant behind the monotone reveal index, for the content \<open>P\<close> of the last
  render: the last content seen is a prefix of it, the index does not exceed its length,
  and at most one timer is pending, which then is the one in \<^verbatim>\<open>timeoutRef\<close>, belongs
  to the running chain and carries the current index.
\<close>

definition hinv :: "string \<Rightarrow> hook \<Rightarrow> bool" where
  "hinv P h \<longleftrightarrow>
     prefix (lastContentRef h) P
     \<and> currentTypingIndexRef h \<le> length P
     \<and> (timers h = []
        \<or> (\<exists>i cl. timers h = [(i, cl)] \<and> isTypingRef h \<and> timeoutRef h = Some i
              \<and> cl_currentIndex cl = currentTypingIndexRef h
              \<and> length (cl_fullContent cl) \<le> length P))"

definition winv :: "storage \<times> component \<Rightarrow> bool" where
  "winv w \<longleftrightarrow> hinv (content (rendered (snd w))) (hk (snd w))"

text \<open>
  The cleanup closure of the persistence effect holds the values of the last render.
\<close>

definition closures_current :: "component \<Rightarrow> bool" where
  "closures_current c \<longleftrightarrow>
     per_chatSessionId c = chatSessionId (rendered c)
     \<and> per_messageId c = messageId (rendered c)
     \<and> per_isTypingComplete c = isTypingComplete (hk c)"

text \<open>Props of a message in session \<^verbatim>\<open>S\<close> with id 7, for the examples.\<close>

definition example_props :: "string \<Rightarrow> bool \<Rightarrow> props" where
  "example_props c k =
     \<lparr>content = c, isComplete = k, shared = False,
      chatSessionId = Some ''S'', messageId = Some 7\<rparr>"

section \<open>Splitting into lines\<close>

lemma split_nl_not_Nil [simp]: "split_nl s \<noteq> []"
  by (induction s) (auto split: list.splits)

lemma split_nl_Cons:
  "split_nl (c # cs) =
     (if c = newline then [] # split_nl cs
      else (c # hd (split_nl cs)) # tl (split_nl cs))"
  by (cases "split_nl cs") auto

lemma split_nl_append:
  "split_nl (a @ b) =
     butlast (split_nl a) @ [last (split_nl a) @ hd (split_nl b)] @ tl (split_nl b)"
proof (induction a)
  case Nil
  then show ?case by simp
next
  case (Cons c a)
  show ?case
  proof (cases "c = newline")
    case True
    with Cons show ?thesis by simp
  next
    case False
    show ?thesis
    proof (cases "butlast (split_nl a) = []")
      case True
      then have one: "split_nl a = [last (split_nl a)]"
        by (metis append_butlast_last_id append_Nil split_nl_not_Nil)
      have "split_nl (c # a) = [c # last (split_nl a)]"
        using False one by (subst split_nl_Cons) (metis list.sel(1) list.sel(3))
      with False Cons True show ?thesis
        by (simp add: split_nl_Cons del: split_nl.simps)
    next
      case nb: False
      then obtain x xs where bl: "butlast (split_nl a) = x # xs" by (cases "butlast (split_nl a)") auto
      then have sa: "split_nl a = x # xs @ [last (split_nl a)]"
        by (metis append_butlast_last_id append_Cons split_nl_not_Nil)
      have "split_nl (c # a) = (c # x) # xs @ [last (split_nl a)]"
        using False sa by (subst split_nl_Cons) (metis list.sel(1) list.sel(3))
      with False Cons bl sa show ?thesis
        by (simp add: split_nl_Cons del: split_nl.simps)
    qed
  qed
qed

lemma last_split_nl_no_newline: "newline \<notin> set (last (split_nl s))"
proof (induction s)
  case Nil
  then show ?case by simp
next
  case (Cons c s)
  then show ?case
    by (cases "split_nl s"; cases "tl (split_nl s) = []") (auto split: if_splits)
qed

lemma split_nl_no_newline: "newline \<notin> set s \<Longrightarrow> split_nl s = [s]"
  by (induction s) auto

lemma hd_split_nl_Nil: "hd (split_nl s) = [] \<longleftrightarrow> s = [] \<or> hd s = newline"
  by (cases s; cases "split_nl (tl s)") auto

lemma split_nl_single: "split_nl s = [x] \<Longrightarrow> s = x"
proof (induction s arbitrary: x)
  case Nil
  then show ?case by simp
next
  case (Cons c s)
  then show ?case by (cases "split_nl s") (auto split: if_splits)
qed

lemma last_split_nl_Nil: "last (split_nl s) = [] \<longleftrightarrow> s = [] \<or> last s = newline"
proof (induction s)
  case Nil
  then show ?case by simp
next
  case (Cons c s)
  then show ?case
    by (cases "split_nl s"; cases "tl (split_nl s) = []"; cases "s = []")
       (auto split: if_splits dest: split_nl_single)
qed

lemma concat_split_nl: "concat (split_nl s) = filter (\<lambda>c. c \<noteq> newline) s"
proof (induction s)
  case Nil
  then show ?case by simp
next
  case (Cons c s)
  then show ?case by (cases "split_nl s") auto
qed


section \<open>The newline-delimited JSON decoder: chunk boundaries\<close>

lemma section_step_acc:
  "section_step (acc, p) x =
     (acc @ fst (section_step ([], p) x), snd (section_step ([], p) x))"
  by (simp add: section_step_def split: prod.splits option.splits)

lemma foldl_section_step_acc:
  "foldl section_step (acc, p) xs =
     (acc @ fst (foldl section_step ([], p) xs), snd (foldl section_step ([], p) xs))"
proof (induction xs arbitrary: acc p)
  case Nil
  then show ?case by simp
next
  case (Cons x xs)
  obtain e q where s0: "section_step ([], p) x = (e, q)" by (cases "section_step ([], p) x")
  have s1: "section_step (acc, p) x = (acc @ e, q)"
    using section_step_acc[of acc p x] s0 by simp
  show ?case
    using Cons.IH[of "acc @ e" q] Cons.IH[of e q] s0 s1 by simp
qed

lemma section_step_join:
  assumes "snd (section_step st u) \<noteq> None"
  shows "section_step (section_step st u) v = section_step st (u @ v)"
proof -
  obtain acc p where st: "st = (acc, p)" by (cases st)
  show ?thesis
  proof (cases "JSON_parse ((case p of None \<Rightarrow> [] | Some s \<Rightarrow> s) @ u)")
    case None
    then show ?thesis
      by (simp add: st section_step_def processSingleChunk_def)
  next
    case (Some j)
    with assms have False
      by (cases "truthy j") (simp_all add: st section_step_def processSingleChunk_def)
    then show ?thesis ..
  qed
qed

lemma sections_append:
  "filter (\<lambda>chunk. length chunk > 0) (split_nl (a @ b)) =
     filter (\<lambda>chunk. length chunk > 0) (butlast (split_nl a))
     @ (if last (split_nl a) @ hd (split_nl b) = [] then [] else [last (split_nl a) @ hd (split_nl b)])
     @ filter (\<lambda>chunk. length chunk > 0) (tl (split_nl b))"
  by (simp add: split_nl_append)

lemma sections_left:
  "filter (\<lambda>chunk. length chunk > 0) (split_nl a) =
     filter (\<lambda>chunk. length chunk > 0) (butlast (split_nl a))
     @ (if last (split_nl a) = [] then [] else [last (split_nl a)])"
proof -
  have "filter (\<lambda>chunk. length chunk > 0) (split_nl a) =
     filter (\<lambda>chunk. length chunk > 0) (butlast (split_nl a) @ [last (split_nl a)])"
    by (simp only: append_butlast_last_id[OF split_nl_not_Nil])
  also have "\<dots> = filter (\<lambda>chunk. length chunk > 0) (butlast (split_nl a))
     @ (if last (split_nl a) = [] then [] else [last (split_nl a)])"
    by (simp only: filter_append) simp
  finally show ?thesis .
qed

lemma sections_right:
  "filter (\<lambda>chunk. length chunk > 0) (split_nl b) =
     (if hd (split_nl b) = [] then [] else [hd (split_nl b)])
     @ filter (\<lambda>chunk. length chunk > 0) (tl (split_nl b))"
  by (cases "split_nl b") auto

lemma foldl_sections_append:
  assumes "last (split_nl a) = [] \<or> hd (split_nl b) = []
           \<or> snd (foldl section_step st (filter (\<lambda>chunk. length chunk > 0) (split_nl a))) \<noteq> None"
  shows "foldl section_step st (filter (\<lambda>chunk. length chunk > 0) (split_nl (a @ b))) =
         foldl section_step
           (foldl section_step st (filter (\<lambda>chunk. length chunk > 0) (split_nl a)))
           (filter (\<lambda>chunk. length chunk > 0) (split_nl b))"
proof -
  let ?A = "filter (\<lambda>chunk. length chunk > 0) (butlast (split_nl a))"
  let ?B = "filter (\<lambda>chunk. length chunk > 0) (tl (split_nl b))"
  let ?u = "last (split_nl a)"
  let ?v = "hd (split_nl b)"
  let ?st1 = "foldl section_step st ?A"
  have M: "filter (\<lambda>chunk. length chunk > 0) (split_nl (a @ b)) =
             ?A @ (if ?u @ ?v = [] then [] else [?u @ ?v]) @ ?B"
    by (rule sections_append)
  have L: "filter (\<lambda>chunk. length chunk > 0) (split_nl a) = ?A @ (if ?u = [] then [] else [?u])"
    by (rule sections_left)
  have R: "filter (\<lambda>chunk. length chunk > 0) (split_nl b) = (if ?v = [] then [] else [?v]) @ ?B"
    by (rule sections_right)
  show ?thesis
  proof (cases "?u = [] \<or> ?v = []")
    case True
    then show ?thesis unfolding M L R by auto
  next
    case False
    with assms have "snd (foldl section_step st (?A @ [?u])) \<noteq> None"
      unfolding L by simp
    then have "snd (section_step ?st1 ?u) \<noteq> None" by simp
    from section_step_join[OF this]
    have "section_step (section_step ?st1 ?u) ?v = section_step ?st1 (?u @ ?v)" .
    with False show ?thesis unfolding M L R by simp
  qed
qed

lemma processRawChunkString_append:
  assumes "a \<noteq> []" and "b \<noteq> []"
    and "last a = newline \<or> hd b = newline \<or> snd (processRawChunkString a p) \<noteq> None"
  shows "processRawChunkString (a @ b) p =
         (fst (processRawChunkString a p) @ fst (processRawChunkString b (snd (processRawChunkString a p))),
          snd (processRawChunkString b (snd (processRawChunkString a p))))"
proof -
  let ?F = "\<lambda>st s. foldl section_step st (filter (\<lambda>chunk. length chunk > 0) (split_nl s))"
  obtain e1 p1 where r1: "?F ([], p) a = (e1, p1)" by (cases "?F ([], p) a")
  have cond: "last (split_nl a) = [] \<or> hd (split_nl b) = [] \<or> snd (?F ([], p) a) \<noteq> None"
    using assms by (auto simp: last_split_nl_Nil hd_split_nl_Nil processRawChunkString_def)
  have "?F ([], p) (a @ b) = ?F (?F ([], p) a) b"
    by (rule foldl_sections_append[OF cond])
  also have "\<dots> = ?F (e1, p1) b" by (simp only: r1)
  also have "\<dots> = (e1 @ fst (?F ([], p1) b), snd (?F ([], p1) b))"
    by (rule foldl_section_step_acc)
  finally show ?thesis
    using assms(1,2) r1 by (simp add: processRawChunkString_def)
qed

lemma decode_chunks_whole:
  "boundaries_ok p cs \<Longrightarrow> cs \<noteq> [] \<Longrightarrow>
   decode_chunks cs p = processRawChunkString (concat cs) p"
proof (induction p cs rule: boundaries_ok.induct)
  case (1 p)
  then show ?case by simp
next
  case (2 p c)
  then show ?case by (simp split: prod.splits)
next
  case (3 p c c' cs)
  let ?p1 = "snd (processRawChunkString c p)"
  from 3(2) have c: "c \<noteq> []"
    and bd: "last c = newline \<or> hd c' = newline \<or> ?p1 \<noteq> None"
    and ok: "boundaries_ok ?p1 (c' # cs)" by simp_all
  from ok have c': "c' \<noteq> []" by (cases cs) simp_all
  have ih: "decode_chunks (c' # cs) ?p1 = processRawChunkString (concat (c' # cs)) ?p1"
    using 3(1)[OF ok] by simp
  have b: "concat (c' # cs) \<noteq> []" and hb: "hd (concat (c' # cs)) = hd c'"
    using c' by simp_all
  from bd hb have bd': "last c = newline \<or> hd (concat (c' # cs)) = newline \<or> ?p1 \<noteq> None"
    by simp
  have "decode_chunks (c # c' # cs) p =
        (fst (processRawChunkString c p) @ fst (decode_chunks (c' # cs) ?p1),
         snd (decode_chunks (c' # cs) ?p1))"
    by (simp split: prod.splits)
  also have "\<dots> = processRawChunkString (c @ concat (c' # cs)) p"
    unfolding ih using processRawChunkString_append[OF c b bd'] by simp
  finally show ?case by simp
qed


text \<open>
  C1 (amended). Chunk-boundary invariance of the newline-JSON decoder holds for the splits
  that \<open>boundaries_ok\<close> describes: for every held partial and every such split, decoding
  the chunks one after the other, threading the partial and concatenating the events,
  yields the same events in the same order as decoding the whole text in one call, and,
  for a non-empty list of chunks, the same final partial.
\<close>

theorem C1_chunk_boundary_invariance:
  assumes "boundaries_ok p chunks"
  shows "fst (decode_chunks chunks p) = fst (processRawChunkString (concat chunks) p)
         \<and> (chunks \<noteq> [] \<longrightarrow>
              snd (decode_chunks chunks p) = snd (processRawChunkString (concat chunks) p))"
proof (cases "chunks = []")
  case True
  then show ?thesis by (simp add: processRawChunkString_def)
next
  case False
  with decode_chunks_whole[OF assms] show ?thesis by simp
qed

text \<open>
  An instance: two objects on two lines, cut inside the first and inside the second
  object, decode to the same two events as the whole text.
\<close>

theorem C1_chunk_boundary_invariance_witness:
  \<open>boundaries_ok None [''{"a":'', ''1}'' @ [newline] @ ''{"b"'', '':2}'' @ [newline]]
   \<and> fst (decode_chunks [''{"a":'', ''1}'' @ [newline] @ ''{"b"'', '':2}'' @ [newline]] None)
       = fst (processRawChunkString
               (concat [''{"a":'', ''1}'' @ [newline] @ ''{"b"'', '':2}'' @ [newline]]) None)\<close>
proof -
  have ok: \<open>boundaries_ok None [''{"a":'', ''1}'' @ [newline] @ ''{"b"'', '':2}'' @ [newline]]\<close>
    by code_simp
  from C1_chunk_boundary_invariance[OF ok] ok show ?thesis by blast
qed

text \<open>
  C1 as stated fails: the text \<^verbatim>\<open>12\n\<close> decodes to the one event 12, but cut into
  \<^verbatim>\<open>1\<close> and \<^verbatim>\<open>2\n\<close> it decodes to the two events 1 and 2, because the fragment
  \<^verbatim>\<open>1\<close> is itself complete JSON and is emitted at once.
\<close>

theorem C1_chunk_boundary_counterexample:
  "concat [''1'', ''2'' @ [newline]] = ''12'' @ [newline]
   \<and> fst (decode_chunks [''1'', ''2'' @ [newline]] None)
       \<noteq> fst (processRawChunkString (''12'' @ [newline]) None)"
  by code_simp

text \<open>
  C6 (amended). For every held partial, an empty chunk yields no events and a null
  partial: the early return of \<open>processRawChunkString\<close> discards what was held, so the
  partial is unchanged only when it was null already.
\<close>

theorem C6_empty_chunk:
  "processRawChunkString [] p = ([], None)"
  by (simp add: processRawChunkString_def)

text \<open>
  C6 as stated fails for a held partial that is not null: the partial \<^verbatim>\<open>{"a"\<close> is
  not returned.
\<close>

theorem C6_empty_chunk_counterexample:
  \<open>processRawChunkString [] (Some ''{"a"'') \<noteq> ([], Some ''{"a"'')\<close>
  by (simp add: processRawChunkString_def)

section \<open>The newline-delimited JSON decoder: what happens to the text\<close>

lemma section_step_conserve:
  "\<exists>items. list_all (\<lambda>(src, v). JSON_parse src = Some v) items
     \<and> fst (section_step (acc, p) l) = acc @ filter truthy (map snd items)
     \<and> concat (map fst items) @ held (snd (section_step (acc, p) l)) = held p @ l"
proof (cases "JSON_parse (held p @ l)")
  case None
  then have "section_step (acc, p) l = (acc, Some (held p @ l))"
    by (simp add: section_step_def processSingleChunk_def held_def)
  then show ?thesis
    by (intro exI[of _ "[]"]) (simp add: held_def)
next
  case (Some j)
  then have "section_step (acc, p) l = (if truthy j then acc @ [j] else acc, None)"
    by (simp add: section_step_def processSingleChunk_def held_def)
  with Some show ?thesis
    by (intro exI[of _ "[(held p @ l, j)]"]) (simp add: held_def)
qed

lemma foldl_section_step_conserve:
  "\<exists>items. list_all (\<lambda>(src, v). JSON_parse src = Some v) items
     \<and> fst (foldl section_step (acc, p) ls) = acc @ filter truthy (map snd items)
     \<and> concat (map fst items) @ held (snd (foldl section_step (acc, p) ls))
         = held p @ concat ls"
proof (induction ls arbitrary: acc p)
  case Nil
  show ?case by (intro exI[of _ "[]"]) simp
next
  case (Cons l ls)
  obtain acc1 p1 where s1: "section_step (acc, p) l = (acc1, p1)"
    by (cases "section_step (acc, p) l")
  from section_step_conserve[of acc p l] s1 obtain items1 where
    i1: "list_all (\<lambda>(src, v). JSON_parse src = Some v) items1"
    and e1: "acc1 = acc @ filter truthy (map snd items1)"
    and c1: "concat (map fst items1) @ held p1 = held p @ l"
    by auto
  from Cons.IH[of acc1 p1] obtain items2 where
    i2: "list_all (\<lambda>(src, v). JSON_parse src = Some v) items2"
    and e2: "fst (foldl section_step (acc1, p1) ls) = acc1 @ filter truthy (map snd items2)"
    and c2: "concat (map fst items2) @ held (snd (foldl section_step (acc1, p1) ls))
              = held p1 @ concat ls"
    by auto
  have "concat (map fst (items1 @ items2)) @ held (snd (foldl section_step (acc1, p1) ls))
        = concat (map fst items1) @ held p1 @ concat ls"
    using c2 by simp
  also have "\<dots> = held p @ l @ concat ls"
    using c1 by (metis append_assoc)
  finally have c: "concat (map fst (items1 @ items2))
                     @ held (snd (foldl section_step (acc1, p1) ls)) = held p @ concat (l # ls)"
    by simp
  show ?case
    using i1 i2 e1 e2 c s1 by (intro exI[of _ "items1 @ items2"]) simp
qed

lemma concat_sections:
  "concat (filter (\<lambda>chunk. length chunk > 0) (split_nl s)) = filter (\<lambda>c. c \<noteq> newline) s"
proof -
  have "concat (filter (\<lambda>chunk. length chunk > 0) xs) = concat xs" for xs :: "string list"
    by (induction xs) auto
  then show ?thesis by (simp add: concat_split_nl)
qed

lemma decode_chunks_Cons:
  "decode_chunks (c # cs) p =
     (fst (processRawChunkString c p) @ fst (decode_chunks cs (snd (processRawChunkString c p))),
      snd (decode_chunks cs (snd (processRawChunkString c p))))"
  by (simp split: prod.splits)

lemma processRawChunkString_conserve:
  assumes "c \<noteq> []"
  shows "\<exists>items. list_all (\<lambda>(src, v). JSON_parse src = Some v) items
     \<and> fst (processRawChunkString c p) = filter truthy (map snd items)
     \<and> concat (map fst items) @ held (snd (processRawChunkString c p))
         = held p @ filter (\<lambda>c. c \<noteq> newline) c"
proof -
  have eq: "processRawChunkString c p =
              foldl section_step ([], p) (filter (\<lambda>chunk. length chunk > 0) (split_nl c))"
    using assms by (simp add: processRawChunkString_def)
  show ?thesis
    unfolding eq concat_sections[symmetric]
    using foldl_section_step_conserve[of "[]" p] by simp
qed

text \<open>
  C7 (amended). Conservation holds for the newline-JSON decoder on non-empty chunks, up
  to the newline delimiters: for every sequence of non-empty chunks and every held
  partial there are source texts, each a line (with what was held before it) that
  parsed to the value listed with it, such that the emitted events are exactly the
  truthy ones among these values, in order, and the source texts followed by the new
  partial are the old partial followed by all chunk text without its newlines.
\<close>

theorem C7_byte_conservation:
  assumes "list_all (\<lambda>c. c \<noteq> []) chunks"
  shows "\<exists>items. list_all (\<lambda>(src, v). JSON_parse src = Some v) items
     \<and> fst (decode_chunks chunks p) = filter truthy (map snd items)
     \<and> concat (map fst items) @ held (snd (decode_chunks chunks p))
         = held p @ filter (\<lambda>c. c \<noteq> newline) (concat chunks)"
  using assms
proof (induction chunks arbitrary: p)
  case Nil
  show ?case by (intro exI[of _ "[]"]) simp
next
  case (Cons c cs)
  then have c: "c \<noteq> []" and cs: "list_all (\<lambda>c. c \<noteq> []) cs" by simp_all
  obtain e1 p1 where r1: "processRawChunkString c p = (e1, p1)"
    by (cases "processRawChunkString c p")
  from processRawChunkString_conserve[OF c, of p] r1 obtain items1 where
    i1: "list_all (\<lambda>(src, v). JSON_parse src = Some v) items1"
    and e1: "e1 = filter truthy (map snd items1)"
    and c1: "concat (map fst items1) @ held p1 = held p @ filter (\<lambda>c. c \<noteq> newline) c"
    by auto
  from Cons.IH[OF cs, of p1] obtain items2 where
    i2: "list_all (\<lambda>(src, v). JSON_parse src = Some v) items2"
    and e2: "fst (decode_chunks cs p1) = filter truthy (map snd items2)"
    and c2: "concat (map fst items2) @ held (snd (decode_chunks cs p1))
              = held p1 @ filter (\<lambda>c. c \<noteq> newline) (concat cs)"
    by auto
  have "concat (map fst (items1 @ items2)) @ held (snd (decode_chunks cs p1))
        = concat (map fst items1) @ held p1 @ filter (\<lambda>c. c \<noteq> newline) (concat cs)"
    using c2 by simp
  also have "\<dots> = held p @ filter (\<lambda>c. c \<noteq> newline) c @ filter (\<lambda>c. c \<noteq> newline) (concat cs)"
    using c1 by (metis append_assoc)
  finally have c: "concat (map fst (items1 @ items2)) @ held (snd (decode_chunks cs p1))
                     = held p @ filter (\<lambda>c. c \<noteq> newline) (concat (c # cs))"
    by simp
  show ?case
    using i1 i2 e1 e2 c r1
    by (intro exI[of _ "items1 @ items2"]) (simp add: decode_chunks_Cons del: decode_chunks.simps)
qed

text \<open>An instance: an object cut in two chunks, followed by the start of another line.\<close>

theorem C7_byte_conservation_witness:
  \<open>list_all (\<lambda>c. c \<noteq> []) [''{"a":'', ''1}'' @ [newline] @ ''x'']
   \<and> (\<exists>items. list_all (\<lambda>(src, v). JSON_parse src = Some v) items
     \<and> fst (decode_chunks [''{"a":'', ''1}'' @ [newline] @ ''x''] None) = filter truthy (map snd items)
     \<and> concat (map fst items) @ held (snd (decode_chunks [''{"a":'', ''1}'' @ [newline] @ ''x''] None))
         = held None @ filter (\<lambda>c. c \<noteq> newline) (concat [''{"a":'', ''1}'' @ [newline] @ ''x'']))\<close>
  using C7_byte_conservation[of \<open>[''{"a":'', ''1}'' @ [newline] @ ''x'']\<close> None]
  by simp

text \<open>
  C7 as stated fails: the Server-Sent-Events decoder, fed the complete line
  \<^verbatim>\<open>data: {a:1\<close>, emits no event and keeps an empty buffer, also at the end of the stream;
  the text of the line is in neither.
\<close>

theorem C7_byte_conservation_counterexample:
  \<open>''data: {a:1'' @ [newline] \<noteq> []
   \<and> sse_chunk [] (''data: {a:1'' @ [newline]) = ([], [])
   \<and> handleSSEStream [ReadValue (''data: {a:1'' @ [newline]), ReadDone] = ([], Returned)\<close>
  by code_simp

section \<open>The Server-Sent-Events decoder: lines and recovery\<close>

lemma split_nl_line:
  "newline \<notin> set l \<Longrightarrow> split_nl (l @ newline # rest) = l # split_nl rest"
  by (induction l) auto

lemma split_nl_lines:
  "list_all (\<lambda>g. newline \<notin> set g) gs \<Longrightarrow>
   split_nl (concat (map (\<lambda>g. g @ [newline]) gs)) = gs @ [[]]"
  by (induction gs) (simp_all add: split_nl_line)

lemma split_nl_buffer_append:
  "split_nl (s @ b) = butlast (split_nl s) @ split_nl (last (split_nl s) @ b)"
proof -
  have "split_nl (last (split_nl s)) = [last (split_nl s)]"
    by (rule split_nl_no_newline) (rule last_split_nl_no_newline)
  then have "split_nl (last (split_nl s) @ b)
             = [last (split_nl s) @ hd (split_nl b)] @ tl (split_nl b)"
    by (simp add: split_nl_append[of "last (split_nl s)" b])
  then show ?thesis
    by (simp add: split_nl_append[of s b])
qed

lemma sse_chunk_append:
  "sse_chunk buffer (a @ b) =
     (fst (sse_chunk buffer a) @ fst (sse_chunk (snd (sse_chunk buffer a)) b),
      snd (sse_chunk (snd (sse_chunk buffer a)) b))"
proof -
  have "split_nl (buffer @ a @ b)
        = butlast (split_nl (buffer @ a)) @ split_nl (last (split_nl (buffer @ a)) @ b)"
    using split_nl_buffer_append[of "buffer @ a" b] by simp
  then show ?thesis
    by (simp add: sse_chunk_def Let_def butlast_append)
qed

lemma sse_chunk_Nil:
  "newline \<notin> set buffer \<Longrightarrow> sse_chunk buffer [] = ([], buffer)"
  by (simp add: sse_chunk_def split_nl_no_newline)

lemma sse_chunk_buffer_no_newline:
  "newline \<notin> set (snd (sse_chunk buffer c))"
  by (simp add: sse_chunk_def Let_def last_split_nl_no_newline)

lemma handleSSEStream_loop_value:
  "handleSSEStream_loop buffer (ReadValue v # rs) =
     (fst (sse_chunk buffer v) @ fst (handleSSEStream_loop (snd (sse_chunk buffer v)) rs),
      snd (handleSSEStream_loop (snd (sse_chunk buffer v)) rs))"
  by (simp split: prod.splits)

lemma handleSSEStream_loop_chunks:
  "newline \<notin> set buffer \<Longrightarrow>
   handleSSEStream_loop buffer (map ReadValue chunks @ [ReadDone]) =
     (fst (sse_chunk buffer (concat chunks)) @ sse_flush (snd (sse_chunk buffer (concat chunks))),
      Returned)"
proof (induction chunks arbitrary: buffer)
  case Nil
  then show ?case by (simp add: sse_chunk_Nil)
next
  case (Cons c cs)
  have nb: "newline \<notin> set (snd (sse_chunk buffer c))"
    by (rule sse_chunk_buffer_no_newline)
  show ?case
    using Cons.IH[OF nb] sse_chunk_append[of buffer c "concat cs"]
    by (simp add: handleSSEStream_loop_value del: handleSSEStream_loop.simps)
qed

lemma trim_not_Nil:
  assumes "\<not> js_space c"
  shows "trim (c # cs) \<noteq> []"
proof -
  have "c \<in> set (rev (c # cs))" by simp
  then have "dropWhile js_space (rev (c # cs)) \<noteq> []"
    using assms by (metis dropWhile_eq_Nil_conv)
  with assms show ?thesis by (simp add: trim_def)
qed

lemma sse_line_events_data:
  "sse_line_events (''data: '' @ payload) = sse_payload_events payload"
proof -
  have "trim (''data: '' @ payload) \<noteq> []"
    using trim_not_Nil[of "CHR ''d''" "''ata: '' @ payload"] by (simp add: js_space_def)
  then show ?thesis by (simp add: sse_line_events_def)
qed

lemma sse_line_events_good:
  assumes "prefix ''data: '' g" and "JSON_parse (drop 6 g) \<noteq> None"
  shows "sse_line_events g = [the (JSON_parse (drop 6 g))]"
proof -
  from assms(1) obtain payload where g: "g = ''data: '' @ payload" by (auto simp: prefix_def)
  with assms(2) show ?thesis
    unfolding g sse_line_events_data by (auto simp: sse_payload_events_def)
qed

lemma sse_good_lines:
  "list_all (\<lambda>g. newline \<notin> set g \<and> prefix ''data: '' g \<and> JSON_parse (drop 6 g) \<noteq> None) goods \<Longrightarrow>
   concat (map sse_line_events goods) = map (\<lambda>g. the (JSON_parse (drop 6 g))) goods"
  by (induction goods) (simp_all add: sse_line_events_good)

text \<open>
  C3 (amended). A parse failure is a value that the decoders handle, never an exception
  of the generator. In the Server-Sent-Events decoder it is contained: for every text
  made of any line followed by complete well-formed data lines, and for every way of
  cutting that text into chunks, the generator returns normally and emits, after
  whatever the first line yields, the value of every later line, in order.
\<close>

theorem C3_sse_decode_failures_contained:
  assumes whole: "concat chunks = bad @ [newline] @ concat (map (\<lambda>g. g @ [newline]) goods)"
    and bad: "newline \<notin> set bad"
    and goods: "list_all (\<lambda>g. newline \<notin> set g \<and> prefix ''data: '' g
                           \<and> JSON_parse (drop 6 g) \<noteq> None) goods"
  shows "handleSSEStream (map ReadValue chunks @ [ReadDone]) =
           (sse_line_events bad @ map (\<lambda>g. the (JSON_parse (drop 6 g))) goods, Returned)"
proof -
  from goods have nl: "list_all (\<lambda>g. newline \<notin> set g) goods"
    by (induction goods) simp_all
  have lines: "split_nl (concat chunks) = bad # goods @ [[]]"
    unfolding whole using split_nl_line[OF bad] split_nl_lines[OF nl] by simp
  have "sse_chunk [] (concat chunks) = (sse_line_events bad @ concat (map sse_line_events goods), [])"
    by (simp add: sse_chunk_def lines butlast_append)
  then show ?thesis
    unfolding handleSSEStream_def
    by (simp add: handleSSEStream_loop_chunks sse_good_lines[OF goods] sse_flush_def trim_def)
qed

text \<open>An instance: a malformed data line, then a well-formed one cut in two chunks.\<close>

theorem C3_sse_decode_failures_contained_witness:
  \<open>handleSSEStream
     (map ReadValue [''data: {a:1'' @ [newline] @ ''data: {"b"'', '':2}'' @ [newline]] @ [ReadDone])
   = ([JObject [([98], JNumber 2 0)]], Returned)\<close>
proof -
  have h1: \<open>concat [''data: {a:1'' @ [newline] @ ''data: {"b"'', '':2}'' @ [newline]]
            = ''data: {a:1'' @ [newline] @ concat (map (\<lambda>g. g @ [newline]) [''data: {"b":2}''])\<close>
    by simp
  have h2: \<open>newline \<notin> set ''data: {a:1''\<close>
    by (simp add: newline_def)
  have h3: \<open>list_all (\<lambda>g. newline \<notin> set g \<and> prefix ''data: '' g \<and> JSON_parse (drop 6 g) \<noteq> None)
              [''data: {"b":2}'']\<close>
    by code_simp
  have e1: \<open>sse_line_events ''data: {a:1'' = []\<close>
    by code_simp
  have e2: \<open>JSON_parse (drop 6 ''data: {"b":2}'') = Some (JObject [([98], JNumber 2 0)])\<close>
    by code_simp
  from C3_sse_decode_failures_contained[OF h1 h2 h3] e1 e2 show ?thesis
    by simp
qed

text \<open>
  C3 as stated fails for the newline-JSON decoder: the line \<^verbatim>\<open>x\<close> never parses, it is
  held as the partial and prefixed to the well-formed line that follows, which is
  therefore never emitted.
\<close>

theorem C3_decode_failures_counterexample:
  \<open>JSON_parse ''{"a":1}'' = Some (JObject [([97], JNumber 1 0)])
   \<and> decode_chunks [''x'' @ [newline], ''{"a":1}'' @ [newline]] None = ([], Some ''x{"a":1}'')
   \<and> processRawChunkString (''x'' @ [newline] @ ''{"a":1}'' @ [newline]) None
       = ([], Some ''x{"a":1}'')\<close>
  by code_simp

lemma brace_body_decomp:
  "brace_body s = Some (body, r) \<Longrightarrow>
   s = body @ CHR ''}'' # r \<and> CHR ''{'' \<notin> set body \<and> CHR ''}'' \<notin> set body"
  by (induction s arbitrary: body) (auto split: if_splits option.splits)

lemma match_braces_shape:
  "m \<in> set (match_braces s) \<Longrightarrow>
   \<exists>body. m = CHR ''{'' # body @ [CHR ''}''] \<and> CHR ''{'' \<notin> set body \<and> CHR ''}'' \<notin> set body"
proof (induction s rule: match_braces.induct)
  case 1
  then show ?case by simp
next
  case (2 c cs)
  then show ?case
    by (auto split: if_splits option.splits dest: brace_body_decomp)
qed

lemma match_braces_in_order:
  "\<exists>gaps rest. length gaps = length (match_braces s)
     \<and> s = concat (map (\<lambda>(g, m). g @ m) (zip gaps (match_braces s))) @ rest"
proof (induction s rule: match_braces.induct)
  case 1
  show ?case by simp
next
  case (2 c cs)
  show ?case
  proof (cases "c = CHR ''{'' \<and> brace_body cs \<noteq> None")
    case True
    then obtain body r where bb: "brace_body cs = Some (body, r)" and c: "c = CHR ''{''" by auto
    from 2(2)[OF c bb refl] obtain gaps rest where
      ih: "length gaps = length (match_braces r)"
          "r = concat (map (\<lambda>(g, m). g @ m) (zip gaps (match_braces r))) @ rest"
      by auto
    from brace_body_decomp[OF bb] have cs: "cs = body @ CHR ''}'' # r" by simp
    have mb: "match_braces (c # cs) = (CHR ''{'' # body @ [CHR ''}'']) # match_braces r"
      using c bb by simp
    have "c # cs = (CHR ''{'' # body @ [CHR ''}'']) @ r" using c cs by simp
    also have "\<dots> = concat (map (\<lambda>(g, m). g @ m) (zip ([] # gaps) (match_braces (c # cs)))) @ rest"
      unfolding mb using ih(2) by simp
    finally have eq: "c # cs =
        concat (map (\<lambda>(g, m). g @ m) (zip ([] # gaps) (match_braces (c # cs)))) @ rest" .
    have len: "length ([] # gaps) = length (match_braces (c # cs))"
      unfolding mb using ih(1) by simp
    from len eq show ?thesis by blast
  next
    case False
    then have mb: "match_braces (c # cs) = match_braces cs"
      by (auto split: option.splits)
    have "\<exists>gaps rest. length gaps = length (match_braces cs)
            \<and> cs = concat (map (\<lambda>(g, m). g @ m) (zip gaps (match_braces cs))) @ rest"
    proof (cases "c = CHR ''{''")
      case True
      with False have "brace_body cs = None" by (cases "brace_body cs") auto
      from 2(1)[OF True this] show ?thesis .
    next
      case False
      from 2(3)[OF this] show ?thesis .
    qed
    then obtain gaps rest where
      ih: "length gaps = length (match_braces cs)"
          "cs = concat (map (\<lambda>(g, m). g @ m) (zip gaps (match_braces cs))) @ rest"
      by auto
    show ?thesis
    proof (cases gaps)
      case Nil
      with ih have "match_braces cs = []" by simp
      then have "length ([] :: string list) = length (match_braces (c # cs))"
        and "c # cs = concat (map (\<lambda>(g, m). g @ m) (zip [] (match_braces (c # cs)))) @ (c # cs)"
        unfolding mb by simp_all
      then show ?thesis by blast
    next
      case (Cons g gs)
      with ih(1) obtain m ms where ms: "match_braces cs = m # ms" by (cases "match_braces cs") auto
      have "cs = concat (map (\<lambda>(g, m). g @ m) (zip (g # gs) (m # ms))) @ rest"
        using ih(2) Cons ms by simp
      then have "c # cs = concat (map (\<lambda>(g, m). g @ m) (zip ((c # g) # gs) (m # ms))) @ rest"
        by simp
      then have eq: "c # cs =
          concat (map (\<lambda>(g, m). g @ m) (zip ((c # g) # gs) (match_braces (c # cs)))) @ rest"
        unfolding mb ms .
      have len: "length ((c # g) # gs) = length (match_braces (c # cs))"
        unfolding mb using ih(1) Cons by simp
      from len eq show ?thesis by blast
    qed
  qed
qed


text \<open>
  C8. The line \<^verbatim>\<open>data: garbage {"a":1} more-garbage {"b":2}\<close> yields exactly the two events
  \<^verbatim>\<open>{a:1}\<close> and \<^verbatim>\<open>{b:2}\<close>, in that order. In general, whenever a payload does not parse,
  its data line yields the parsed brace matches in match order, and the matches lie in
  the payload one after the other, without overlap, each an opening brace, text without
  braces and a closing brace.
\<close>

theorem C8_sse_recovery_order:
  \<open>handleSSEStream
      [ReadValue (''data: garbage {"a":1} more-garbage {"b":2}'' @ [newline]), ReadDone]
    = ([JObject [([97], JNumber 1 0)], JObject [([98], JNumber 2 0)]], Returned)
   \<and> (JSON_parse payload = None \<longrightarrow>
        sse_line_events (''data: '' @ payload) = List.map_filter JSON_parse (match_braces payload)
        \<and> (\<exists>gaps rest. length gaps = length (match_braces payload)
              \<and> payload = concat (map (\<lambda>(g, m). g @ m) (zip gaps (match_braces payload))) @ rest)
        \<and> (\<forall>m \<in> set (match_braces payload).
              \<exists>body. m = CHR ''{'' # body @ [CHR ''}'']
                     \<and> CHR ''{'' \<notin> set body \<and> CHR ''}'' \<notin> set body))\<close>
proof -
  have concrete: \<open>handleSSEStream
      [ReadValue (''data: garbage {"a":1} more-garbage {"b":2}'' @ [newline]), ReadDone]
    = ([JObject [([97], JNumber 1 0)], JObject [([98], JNumber 2 0)]], Returned)\<close>
    by code_simp
  have general: "sse_line_events (''data: '' @ payload)
                   = List.map_filter JSON_parse (match_braces payload)"
    if "JSON_parse payload = None"
    using that unfolding sse_line_events_data by (simp add: sse_payload_events_def)
  show ?thesis
    using concrete general match_braces_in_order[of payload] match_braces_shape[of _ payload]
    by blast
qed

text \<open>An instance of the general part: the payload of the example line.\<close>

theorem C8_sse_recovery_order_witness:
  \<open>JSON_parse ''garbage {"a":1} more-garbage {"b":2}'' = None
   \<and> sse_line_events (''data: '' @ ''garbage {"a":1} more-garbage {"b":2}'')
       = List.map_filter JSON_parse (match_braces ''garbage {"a":1} more-garbage {"b":2}'')
   \<and> match_braces ''garbage {"a":1} more-garbage {"b":2}'' = [''{"a":1}'', ''{"b":2}'']\<close>
proof -
  have h: \<open>JSON_parse ''garbage {"a":1} more-garbage {"b":2}'' = None\<close>
    by code_simp
  have m: \<open>match_braces ''garbage {"a":1} more-garbage {"b":2}'' = [''{"a":1}'', ''{"b":2}'']\<close>
    by code_simp
  from C8_sse_recovery_order[of \<open>''garbage {"a":1} more-garbage {"b":2}''\<close>] h m
  show ?thesis by blast
qed

section \<open>The citation filter: what one pass leaves\<close>

lemma gsub_length_le_aux:
  "(\<forall>b s rep r. m b s = Some (rep, r) \<longrightarrow> length rep + length r \<le> length s) \<Longrightarrow>
   length (gsub m b s) \<le> length s"
proof (induction m b s rule: gsub.induct)
  case (1 m at_start)
  show ?case
  proof (cases "m at_start []")
    case None
    then show ?thesis by simp
  next
    case (Some a)
    obtain rep r where a: "a = (rep, r)" by (cases a)
    from Some a have "m at_start [] = Some (rep, r)" by simp
    with 1 have "length rep + length r \<le> length ([] :: string)" by blast
    then have "rep = []" by simp
    with Some a show ?thesis by simp
  qed
next
  case (2 m at_start c cs)
  note hyp = 2(4)
  show ?case
  proof (cases "m at_start (c # cs)")
    case None
    with 2(1)[OF None hyp] show ?thesis by simp
  next
    case (Some a)
    obtain rep r where a: "a = (rep, r)" by (cases a)
    from Some a have "m at_start (c # cs) = Some (rep, r)" by simp
    with hyp have "length rep + length r \<le> length (c # cs)" by blast
    then have le: "length rep + length r \<le> Suc (length cs)" by simp
    show ?thesis
    proof (cases "length r \<le> length cs")
      case True
      from 2(2)[OF Some a[symmetric] True hyp] le Some a True show ?thesis by simp
    next
      case False
      with le have "length rep = 0" by linarith
      then have "rep = []" by simp
      with 2(3)[OF Some a[symmetric] False hyp] Some a False show ?thesis by simp
    qed
  qed
qed

lemma gsub_length_le:
  assumes "\<And>b s rep r. m b s = Some (rep, r) \<Longrightarrow> length rep + length r \<le> length s"
  shows "length (gsub m b s) \<le> length s"
  by (rule gsub_length_le_aux) (use assms in blast)

lemma gsub_unchanged:
  "\<not> matches_somewhere m b s \<Longrightarrow> gsub m b s = s"
proof (induction s arbitrary: b)
  case Nil
  then have "m b [] = None" by (cases "m b []") auto
  then show ?case by simp
next
  case (Cons c cs)
  then have n: "m b (c # cs) = None" and r: "\<not> matches_somewhere m False cs"
    by (cases "m b (c # cs)"; auto)+
  from Cons.IH[OF r] n show ?case by simp
qed

lemma gsub_shrinks:
  assumes strict: "\<And>b t rep r. m b t = Some (rep, r) \<Longrightarrow> length rep + length r < length t"
  shows "matches_somewhere m b s \<Longrightarrow> length (gsub m b s) < length s"
proof (induction s arbitrary: b)
  case Nil
  then show ?case using strict[of b "[]"] by (cases "m b []") auto
next
  case (Cons c cs)
  show ?case
  proof (cases "m b (c # cs)")
    case None
    with Cons.prems have "matches_somewhere m False cs" by simp
    from Cons.IH[OF this] None show ?thesis by simp
  next
    case (Some p)
    obtain rep r where p: "p = (rep, r)" by (cases p)
    from strict[of b "c # cs" rep r] Some p
    have lt: "length rep + length r < Suc (length cs)" by simp
    have "length (gsub m False r) \<le> length r"
      by (rule gsub_length_le) (rule less_imp_le, rule strict)
    with lt Some p show ?thesis by simp
  qed
qed

lemma num_list_rest_shorter:
  "num_list_rest s = Some r \<Longrightarrow> length r < length s \<and> set r \<subseteq> set s"
proof (induction s rule: num_list_rest.induct)
  case 1
  then show ?case by simp
next
  case (2 c cs)
  show ?case
  proof (cases "c = CHR '']''")
    case True
    with 2(2) show ?thesis by auto
  next
    case False
    with 2(2) have sep: "c = CHR '','' \<or> js_space c \<or> c = CHR ''-''"
      and dg: "takeWhile is_digit (dropWhile js_space cs) \<noteq> []"
      and rec: "num_list_rest (dropWhile is_digit (dropWhile js_space cs)) = Some r"
      by (auto split: if_splits)
    from 2(1)[OF False sep dg rec]
    have "length r < length (dropWhile is_digit (dropWhile js_space cs))"
      and "set r \<subseteq> set (dropWhile is_digit (dropWhile js_space cs))" by simp_all
    moreover have "length (dropWhile is_digit (dropWhile js_space cs)) \<le> length cs"
      by (meson length_dropWhile_le order_trans)
    moreover have "set (dropWhile is_digit (dropWhile js_space cs)) \<subseteq> set cs"
      by (meson set_dropWhileD subsetI)
    ultimately show ?thesis by auto
  qed
qed

lemma match_double_cite_shorter:
  "match_double_cite s = Some r \<Longrightarrow> length r < length s"
proof -
  assume m: "match_double_cite s = Some r"
  then obtain a b t where s: "s = a # b # t"
    by (auto simp: match_double_cite_def split: list.splits)
  with m obtain r2 where dw: "dropWhile cite_class t = CHR '']'' # CHR '']'' # CHR ''('' # r2"
    and ut: "url_tail r2 = Some r"
    by (auto simp: match_double_cite_def split: list.splits if_splits)
  have "length (dropWhile cite_class t) \<le> length t" by (rule length_dropWhile_le)
  with dw have "length r2 < length t" by simp
  moreover from url_tail_shorter[OF ut] have "length r < length r2" .
  ultimately show ?thesis using s by simp
qed

lemma match_single_cite_shorter:
  "match_single_cite s = Some r \<Longrightarrow> length r < length s"
proof -
  assume m: "match_single_cite s = Some r"
  then obtain a t where s: "s = a # t"
    by (auto simp: match_single_cite_def split: list.splits)
  with m obtain r2 where nl: "num_list_rest (dropWhile is_digit t) = Some (CHR ''('' # r2)"
    and ut: "url_tail r2 = Some r"
    by (auto simp: match_single_cite_def split: list.splits if_splits option.splits)
  from num_list_rest_shorter[OF nl]
  have "length (CHR ''('' # r2) < length (dropWhile is_digit t)" by simp
  moreover have "length (dropWhile is_digit t) \<le> length t" by (rule length_dropWhile_le)
  moreover from url_tail_shorter[OF ut] have "length r < length r2" .
  ultimately show ?thesis using s by auto
qed

lemma url_paren_shorter:
  "url_paren s = Some r \<Longrightarrow> length r < length s \<and> CHR ''('' \<in> set s"
proof -
  assume m: "url_paren s = Some r"
  then have pre: "prefix ''(http'' s"
    by (auto simp: url_paren_def split: if_splits)
  then obtain t where s: "s = ''(http'' @ t" by (auto simp: prefix_def)
  define u where "u = (if prefix ''s://'' t then drop 4 t else drop 3 t)"
  have u: "length u \<le> length t" by (simp add: u_def)
  from m s have dw: "dropWhile url_char u = CHR '')'' # r"
    by (auto simp: url_paren_def Let_def u_def split: if_splits option.splits list.splits)
  have "length (dropWhile url_char u) \<le> length u" by (rule length_dropWhile_le)
  with dw u s show ?thesis by simp
qed

lemma match_orphan_url_shorter:
  "match_orphan_url b s = Some (rep, r) \<Longrightarrow> length rep + length r < length s"
  by (cases s)
     (auto simp: match_orphan_url_def split: if_splits option.splits
           dest!: url_paren_shorter)

lemma double_cite_strict:
  "map_option (Pair []) (match_double_cite u) = Some (rep, r) \<Longrightarrow>
   length rep + length r < length u"
  using match_double_cite_shorter[of u r] by auto

lemma single_cite_strict:
  "map_option (Pair []) (match_single_cite u) = Some (rep, r) \<Longrightarrow>
   length rep + length r < length u"
  using match_single_cite_shorter[of u r] by auto

lemma gsub_double_cite_length:
  "length (gsub (\<lambda>b s. map_option (Pair []) (match_double_cite s)) b u) \<le> length u"
  by (rule gsub_length_le) (rule less_imp_le, rule double_cite_strict)

lemma gsub_single_cite_length:
  "length (gsub (\<lambda>b s. map_option (Pair []) (match_single_cite s)) b u) \<le> length u"
  by (rule gsub_length_le) (rule less_imp_le, rule single_cite_strict)

lemma gsub_orphan_url_length:
  "length (gsub match_orphan_url b u) \<le> length u"
  by (rule gsub_length_le) (rule less_imp_le, rule match_orphan_url_shorter)

lemma filterCitationsForTyping_length:
  "length (filterCitationsForTyping s) \<le> length s"
proof -
  let ?m1 = "\<lambda>b s. map_option (Pair []) (match_double_cite s)"
  let ?m2 = "\<lambda>b s. map_option (Pair []) (match_single_cite s)"
  show ?thesis
    unfolding filterCitationsForTyping_def
    using gsub_double_cite_length[of True s] gsub_single_cite_length[of True "gsub ?m1 True s"]
      gsub_orphan_url_length[of True "gsub ?m2 True (gsub ?m1 True s)"]
    by linarith
qed

text \<open>
  One pass leaves a text as it is exactly when none of the three patterns matches
  anywhere in it: a replace without a match is the identity, and every match makes the
  text shorter, which no later replace makes up for.
\<close>

lemma filterCitationsForTyping_fixed_iff:
  "filterCitationsForTyping t = t \<longleftrightarrow> \<not> has_citation t"
proof -
  let ?m1 = "\<lambda>b s. map_option (Pair []) (match_double_cite s)"
  let ?m2 = "\<lambda>b s. map_option (Pair []) (match_single_cite s)"
  show ?thesis
  proof
    assume fx: "filterCitationsForTyping t = t"
    show "\<not> has_citation t"
    proof
      assume hc: "has_citation t"
      have "length (filterCitationsForTyping t) < length t"
      proof (cases "matches_somewhere ?m1 True t")
        case True
        have "length (gsub ?m1 True t) < length t"
          by (rule gsub_shrinks[of ?m1, OF double_cite_strict True])
        with gsub_single_cite_length[of True "gsub ?m1 True t"]
          gsub_orphan_url_length[of True "gsub ?m2 True (gsub ?m1 True t)"]
        show ?thesis unfolding filterCitationsForTyping_def by linarith
      next
        case n1: False
        then have e1: "gsub ?m1 True t = t" by (rule gsub_unchanged)
        show ?thesis
        proof (cases "matches_somewhere ?m2 True t")
          case True
          have "length (gsub ?m2 True t) < length t"
            by (rule gsub_shrinks[of ?m2, OF single_cite_strict True])
          with gsub_orphan_url_length[of True "gsub ?m2 True t"]
          show ?thesis unfolding filterCitationsForTyping_def e1 by linarith
        next
          case n2: False
          then have e2: "gsub ?m2 True t = t" by (rule gsub_unchanged)
          from hc n1 n2 have "matches_somewhere match_orphan_url True t"
            by (simp add: has_citation_def)
          then have "length (gsub match_orphan_url True t) < length t"
            by (rule gsub_shrinks[of match_orphan_url, OF match_orphan_url_shorter, rotated])
          then show ?thesis unfolding filterCitationsForTyping_def e1 e2 .
        qed
      qed
      with fx show False by simp
    qed
  next
    assume "\<not> has_citation t"
    then have "gsub ?m1 True t = t" "gsub ?m2 True t = t" "gsub match_orphan_url True t = t"
      by (auto simp: has_citation_def intro: gsub_unchanged)
    then show "filterCitationsForTyping t = t"
      unfolding filterCitationsForTyping_def by simp
  qed
qed

text \<open>
  C10 (amended). For every string, re-applying the citation filter to the filtered text
  changes nothing exactly when the first pass has left no citation, that is, when none
  of the three patterns matches anywhere in the filtered text.
\<close>

theorem C10_filter_idempotent:
  "filterCitationsForTyping (filterCitationsForTyping s) = filterCitationsForTyping s
   \<longleftrightarrow> \<not> has_citation (filterCitationsForTyping s)"
  by (rule filterCitationsForTyping_fixed_iff)

text \<open>
  An instance: a text with a call in parentheses and one citation. The first pass removes
  the citation and leaves the parentheses of the call, which no pattern matches; a second
  pass changes nothing.
\<close>

theorem C10_filter_idempotent_witness:
  "filterCitationsForTyping ''see f(x) and [[1]](http://u) ok'' = ''see f(x) and  ok''
   \<and> \<not> has_citation (filterCitationsForTyping ''see f(x) and [[1]](http://u) ok'')
   \<and> filterCitationsForTyping (filterCitationsForTyping ''see f(x) and [[1]](http://u) ok'')
       = filterCitationsForTyping ''see f(x) and [[1]](http://u) ok''"
proof -
  have f: "filterCitationsForTyping ''see f(x) and [[1]](http://u) ok'' = ''see f(x) and  ok''"
    by code_simp
  have h: "\<not> has_citation ''see f(x) and  ok''"
    by code_simp
  from C10_filter_idempotent[of "''see f(x) and [[1]](http://u) ok''"] f h
  show ?thesis by simp
qed

text \<open>
  C10 as stated fails: in \<^verbatim>\<open>[[1]][[2]](u)(v)\<close> the first replace removes \<^verbatim>\<open>[[2]](u)\<close>, the
  only match of its pattern, and thereby brings \<^verbatim>\<open>[[1]]\<close> and \<^verbatim>\<open>(v)\<close> together; the text
  \<^verbatim>\<open>[[1]](v)\<close> that the pass returns is itself a citation, and a second pass removes it.
\<close>

theorem C10_filter_idempotent_counterexample:
  "filterCitationsForTyping ''[[1]][[2]](u)(v)'' = ''[[1]](v)''
   \<and> filterCitationsForTyping (filterCitationsForTyping ''[[1]][[2]](u)(v)'') = []
   \<and> filterCitationsForTyping (filterCitationsForTyping ''[[1]][[2]](u)(v)'')
       \<noteq> filterCitationsForTyping ''[[1]][[2]](u)(v)''"
  by code_simp

section \<open>The typewriter: renders and effects\<close>

lemma rerender_hk [simp]:
  "hk (snd (rerender rc w)) = hk (snd w)"
  by (cases w) (simp add: rerender_def)

lemma rerender_rendered [simp]:
  "rendered (snd (rerender rc w)) = rendered (snd w)"
  by (cases w) (simp add: rerender_def)

lemma update_rendered [simp]:
  "rendered (snd (update p' w)) = p'"
  by (cases w) (simp add: update_def Let_def)

lemma update_hk:
  "hk (snd (update p' w)) =
     (let p = rendered (snd w);
          h1 = (if content p' \<noteq> content p \<or> isComplete p' \<noteq> isComplete p
                then content_effect p' (isTypingComplete (hk (snd w))) (hk (snd w))
                else hk (snd w))
      in if isComplete p' \<noteq> isComplete p \<or> shared p' \<noteq> shared p
            \<or> content p' \<noteq> content p \<or> chatSessionId p' \<noteq> chatSessionId p
         then completion_effect p' h1 else h1)"
  by (cases w) (simp add: update_def Let_def)

lemma tick_rendered [simp]:
  "rendered (snd (tick w)) = rendered (snd w)"
  by (cases w) (simp add: tick_def split: list.splits)

lemma hidden_rendered [simp]:
  "rendered (snd (visibility_hidden w)) = rendered (snd w)"
  by (cases w) (simp add: visibility_hidden_def)

lemma caller_sets_rendered [simp]:
  "rendered (snd (caller_sets d k w)) = rendered (snd w)"
  by (cases w) (simp add: caller_sets_def Let_def)

lemma mount_rendered [simp]:
  "rendered (snd (mount p store)) = p"
  by (simp add: mount_def Let_def)

lemma run_Nil [simp]: "run [] w = w"
  by (simp add: run_def)

lemma run_Cons [simp]: "run (e # es) w = run es (apply_event e w)"
  by (simp add: run_def)

lemma run_append: "run (es1 @ es2) w = run es2 (run es1 w)"
  by (simp add: run_def)

section \<open>The typewriter: completion\<close>

lemma completion_effect_post:
  assumes "isComplete p \<or> shared p"
  shows "displayedContent (completion_effect p h) = content p"
    and "currentTypingIndexRef (completion_effect p h) = length (content p)"
    and "isTypingComplete (completion_effect p h)"
    and "timeoutRef (completion_effect p h) = None"
    and "\<not> isTypingRef (completion_effect p h)"
  using assms
  by (auto simp: completion_effect_def showFinalContentWithCitations_def clearTimeout_def
        split: option.splits)

lemma completion_effect_cancels:
  assumes "isComplete p \<or> shared p" and "timeoutRef h = Some i"
  shows "i \<notin> fst ` set (timers (completion_effect p h))"
  using assms
  by (auto simp: completion_effect_def showFinalContentWithCitations_def clearTimeout_def)

lemma completion_effect_settled:
  assumes "isComplete p \<or> shared p"
    and "displayedContent h = content p" and "currentTypingIndexRef h = length (content p)"
    and "isTypingComplete h" and "timeoutRef h = None" and "\<not> isTypingRef h"
  shows "completion_effect p h = h"
  using assms
  by (simp add: completion_effect_def showFinalContentWithCitations_def)

lemma startTyping_stalls:
  "\<not> isTypingRef h \<Longrightarrow>
   startTyping rc full i h = h\<lparr>isTypingRef := True, currentTypingIndexRef := i\<rparr>"
  by (simp add: startTyping_def continueTyping_def)

lemma content_effect_when_complete:
  assumes "isTypingComplete h" and "\<not> isTypingRef h" and "timeoutRef h = None"
    and "isComplete p \<or> shared p"
  shows "\<exists>l. completion_effect p (content_effect p True h)
              = (completion_effect p h)\<lparr>lastContentRef := l\<rparr>"
proof (cases "typingDisabledRef h")
  case True
  with assms show ?thesis
    by (intro exI[of _ "content p"])
       (simp add: content_effect_def completion_effect_def showFinalContentWithCitations_def)
next
  case nd: False
  show ?thesis
  proof (cases "content p \<noteq> lastContentRef h \<and> \<not> prefix (lastContentRef h) (content p)")
    case True
    with nd assms show ?thesis
      by (intro exI[of _ "content p"])
         (simp add: content_effect_def Let_def startTyping_stalls completion_effect_def
            showFinalContentWithCitations_def)
  next
    case nr: False
    show ?thesis
    proof (cases "length (content p) > length (lastContentRef h)
                  \<and> prefix (lastContentRef h) (content p)")
      case True
      have "continueTyping True (content p) (currentTypingIndexRef h) h = h"
        using assms(2) by (simp add: continueTyping_def typeNextChar_def)
      with nd nr True assms show ?thesis
        by (intro exI[of _ "content p"])
           (simp add: content_effect_def Let_def completion_effect_def
              showFinalContentWithCitations_def)
    next
      case False
      have "content_effect p True h = h"
        unfolding content_effect_def by (simp only: nd nr False if_False)
      then show ?thesis
        by (intro exI[of _ "lastContentRef (completion_effect p h)"]) simp
    qed
  qed
qed

lemma second_completion_signal:
  assumes r: "rendered (snd w) = p'"
    and post: "displayedContent (hk (snd w)) = content p'"
      "currentTypingIndexRef (hk (snd w)) = length (content p')"
      "isTypingComplete (hk (snd w))" "timeoutRef (hk (snd w)) = None"
      "\<not> isTypingRef (hk (snd w))"
    and same: "content p'' = content p'" and sig: "isComplete p'' \<or> shared p''"
  shows "\<exists>l. hk (snd (update p'' w)) = (hk (snd w))\<lparr>lastContentRef := l\<rparr>"
proof -
  define h where "h = hk (snd w)"
  have settled: "completion_effect p'' h = h"
    by (rule completion_effect_settled) (use post same sig in \<open>simp_all add: h_def\<close>)
  show ?thesis
  proof (cases "isComplete p'' \<noteq> isComplete p'")
    case True
    then have "hk (snd (update p'' w)) = completion_effect p'' (content_effect p'' True h)"
      using post(3) r by (simp add: update_hk Let_def h_def)
    moreover have "\<exists>l. completion_effect p'' (content_effect p'' True h)
                       = (completion_effect p'' h)\<lparr>lastContentRef := l\<rparr>"
      by (rule content_effect_when_complete) (use post sig in \<open>simp_all add: h_def\<close>)
    ultimately show ?thesis
      using settled by (simp add: h_def)
  next
    case False
    have "hk (snd (update p'' w)) = (if shared p'' \<noteq> shared p'
              \<or> chatSessionId p'' \<noteq> chatSessionId p' then completion_effect p'' h else h)"
      using False same r by (simp add: update_hk Let_def h_def)
    with settled have "hk (snd (update p'' w)) = h" by simp
    then show ?thesis by (intro exI[of _ "lastContentRef h"]) (simp add: h_def)
  qed
qed

text \<open>
  The external stop: the caller's effect sets the displayed string and the completion
  state through the two setters and touches nothing else of the hook, so a pending timer
  and the reveal index stay as they are. A stop in a state that already shows the whole
  content as complete changes nothing.
\<close>

lemma stop_generating_post:
  "displayedContent (hk (snd (stop_generating w))) = content (rendered (snd w))
   \<and> isTypingComplete (hk (snd (stop_generating w)))
   \<and> rendered (snd (stop_generating w)) = rendered (snd w)"
  by (cases w) (simp add: stop_generating_def caller_sets_def Let_def)

lemma stop_generating_refs:
  "timers (hk (snd (stop_generating w))) = timers (hk (snd w))
   \<and> timeoutRef (hk (snd (stop_generating w))) = timeoutRef (hk (snd w))
   \<and> currentTypingIndexRef (hk (snd (stop_generating w))) = currentTypingIndexRef (hk (snd w))"
  by (cases w) (simp add: stop_generating_def caller_sets_def Let_def)

lemma stop_generating_settled:
  assumes "displayedContent (hk (snd w)) = content (rendered (snd w))"
    and "isTypingComplete (hk (snd w))"
  shows "stop_generating w = w"
proof -
  obtain store c where w: "w = (store, c)" by (cases w)
  from assms w
  have "(hk c)\<lparr>displayedContent := content (rendered c), isTypingComplete := True\<rparr> = hk c"
    by simp
  then have "c\<lparr>hk := (hk c)\<lparr>displayedContent := content (rendered c),
                            isTypingComplete := True\<rparr>\<rparr> = c"
    by simp
  with assms w show ?thesis
    by (simp add: stop_generating_def caller_sets_def Let_def rerender_def)
qed

text \<open>
  An instance of what the stop leaves behind: \<^verbatim>\<open>Hello\<close> is stopped after its first
  character was typed. The whole content is displayed and the state is complete, but the
  timer of the typing chain is still pending and the index is still 1; when the timer
  fires, its closure, which holds the completion state of the render that started the
  chain, types the next character and the displayed text is \<^verbatim>\<open>He\<close>.
\<close>

lemma stop_generating_then_tick:
  "displayedContent (hk (snd (stop_generating
      (mount (example_props ''Hello'' False) Map.empty)))) = ''Hello''
   \<and> isTypingComplete (hk (snd (stop_generating
      (mount (example_props ''Hello'' False) Map.empty))))
   \<and> timers (hk (snd (stop_generating
      (mount (example_props ''Hello'' False) Map.empty)))) \<noteq> []
   \<and> revealIndex (stop_generating (mount (example_props ''Hello'' False) Map.empty)) = 1
   \<and> displayedContent (hk (snd (tick (stop_generating
      (mount (example_props ''Hello'' False) Map.empty))))) = ''He''"
  by code_simp





section \<open>The typewriter: interrupt persistence\<close>

lemma rerender_closures_current:
  assumes "per_chatSessionId c = chatSessionId (rendered c)"
    and "per_messageId c = messageId (rendered c)"
    and "per_isTypingComplete c = rc"
  shows "closures_current (snd (rerender rc (store, c)))"
  using assms by (auto simp: rerender_def closures_current_def)

lemma mount_closures_current:
  "closures_current (snd (mount p store))"
  unfolding mount_def Let_def by (rule rerender_closures_current) simp_all

lemma update_closures_current:
  assumes "closures_current (snd w)"
  shows "closures_current (snd (update p' w))"
proof -
  obtain store c where w: "w = (store, c)" by (cases w)
  from assms w have cc: "closures_current c" by simp
  show ?thesis
    unfolding w update_def Let_def prod.case
    by (rule rerender_closures_current) (use cc in \<open>auto simp: closures_current_def\<close>)
qed

lemma tick_closures_current:
  assumes "closures_current (snd w)"
  shows "closures_current (snd (tick w))"
proof -
  obtain store c where w: "w = (store, c)" by (cases w)
  from assms w have cc: "closures_current c" by simp
  show ?thesis
  proof (cases "timers (hk c)")
    case Nil
    with cc w show ?thesis by (simp add: tick_def)
  next
    case (Cons t ts)
    obtain i cl where t: "t = (i, cl)" by (cases t)
    have "closures_current
            (snd (rerender (isTypingComplete (hk c))
                   (store, c\<lparr>hk := typeNextChar cl ((hk c)\<lparr>timers := ts\<rparr>)\<rparr>)))"
      by (rule rerender_closures_current) (use cc in \<open>auto simp: closures_current_def\<close>)
    with Cons t w show ?thesis by (simp add: tick_def)
  qed
qed

lemma hidden_closures_current:
  assumes "closures_current (snd w)"
  shows "closures_current (snd (visibility_hidden w))"
proof -
  obtain store c where w: "w = (store, c)" by (cases w)
  from assms w have cc: "closures_current c" by simp
  show ?thesis
    unfolding w visibility_hidden_def prod.case
    by (rule rerender_closures_current) (use cc in \<open>auto simp: closures_current_def\<close>)
qed

lemma visible_closures_current:
  assumes "closures_current (snd w)"
  shows "closures_current (snd (visibility_visible w))"
proof -
  obtain store c where w: "w = (store, c)" by (cases w)
  from assms w have cc: "closures_current c" by simp
  show ?thesis
    unfolding w visibility_visible_def prod.case
    by (rule rerender_closures_current) (use cc in \<open>auto simp: closures_current_def\<close>)
qed

lemma caller_sets_closures_current:
  assumes "closures_current (snd w)"
  shows "closures_current (snd (caller_sets d k w))"
proof -
  obtain store c where w: "w = (store, c)" by (cases w)
  from assms w have cc: "closures_current c" by simp
  show ?thesis
    unfolding w caller_sets_def Let_def prod.case
    by (rule rerender_closures_current) (use cc in \<open>auto simp: closures_current_def\<close>)
qed

lemma run_closures_current:
  "closures_current (snd w) \<Longrightarrow> closures_current (snd (run es w))"
proof (induction es arbitrary: w)
  case Nil
  then show ?case by (simp add: run_def)
next
  case (Cons e es)
  have "closures_current (snd (apply_event e w))"
    using Cons.prems
    by (cases e)
       (simp_all add: update_closures_current tick_closures_current
          hidden_closures_current visible_closures_current caller_sets_closures_current)
  from Cons.IH[OF this] show ?case by (simp add: run_def)
qed

lemma unmount_mid_typing:
  assumes "closures_current c" and "\<not> isTypingComplete (hk c)"
    and "chatSessionId (rendered c) = Some S" and "messageId (rendered c) = Some M"
  shows "unmount (store, c) (''disableTyping:'' @ S @ '':'' @ show_int M) = Some ''1''"
  using assms
  by (simp add: unmount_def persist_cleanup_def closures_current_def storage_key_def)

lemma remount_disabled_hook:
  assumes "chatSessionId p' = Some S" and "messageId p' = Some M"
    and "store (''disableTyping:'' @ S @ '':'' @ show_int M) = Some ''1''"
  shows "hk (snd (mount p' store)) =
           initial_hook\<lparr>typingDisabledRef := True, displayedContent := content p',
             lastContentRef := content p',
             isTypingComplete := (isComplete p' \<or> shared p'),
             currentTypingIndexRef := (if isComplete p' \<or> shared p' then length (content p') else 0)\<rparr>"
  using assms
  by (auto simp: mount_def Let_def mount_effect_def storage_key_def content_effect_def
        completion_effect_def showFinalContentWithCitations_def initial_hook_def)

lemma remount_store:
  assumes "chatSessionId p' = Some S" and "messageId p' = Some M"
    and "store (''disableTyping:'' @ S @ '':'' @ show_int M) = Some ''1''"
  shows "fst (mount p' store) (''disableTyping:'' @ S @ '':'' @ show_int M) = Some ''1''"
  using assms
  by (auto simp: mount_def Let_def rerender_def persist_cleanup_def storage_key_def)


lemma unmount_after_completion:
  assumes "closures_current c" and "isTypingComplete (hk c)"
    and "chatSessionId (rendered c) = Some S" and "messageId (rendered c) = Some M"
  shows "unmount (store, c) (''disableTyping:'' @ S @ '':'' @ show_int M) = None"
  using assms
  by (simp add: unmount_def persist_cleanup_def closures_current_def storage_key_def)

lemma completion_after_remount:
  assumes "typingDisabledRef (hk c)"
    and "isTypingComplete (hk c) = (isComplete (rendered c) \<or> shared (rendered c))"
    and "isComplete p'' \<or> shared p''"
  shows "isTypingComplete (hk (snd (update p'' (store, c))))"
proof (cases "isTypingComplete (hk c)")
  case True
  with assms(1) show ?thesis
    by (simp add: update_hk Let_def content_effect_def completion_effect_def
          showFinalContentWithCitations_def)
next
  case False
  with assms(2) have "\<not> isComplete (rendered c)" and "\<not> shared (rendered c)" by simp_all
  with assms(3) have "isComplete p'' \<noteq> isComplete (rendered c) \<or> shared p'' \<noteq> shared (rendered c)"
    by auto
  with assms(3) show ?thesis
    by (auto simp: update_hk Let_def completion_effect_def showFinalContentWithCitations_def)
qed

text \<open>
  C4 (amended). If an instance unmounts while typing is not complete and its session and
  message ids are present, the flag \<^verbatim>\<open>disableTyping:<sessionId>:<messageId>\<close> is persisted.
  The next mount with the same ids skips the animation: at once the displayed string is
  the full content, no timer is pending, and typing is complete exactly when the
  completion flag or the flag \<^verbatim>\<open>shared\<close> is set. The flag is still set after that mount; it
  is removed by the cleanup at the next unmount that follows the completion, whether the
  completion came with the mount or with a later update.
\<close>

theorem C4_interrupt_persistence:
  assumes reach: "run es (mount p0 store0) = (store, c)"
    and typing: "\<not> isTypingComplete (hk c)"
    and ids: "chatSessionId (rendered c) = Some S" "messageId (rendered c) = Some M"
    and ids': "chatSessionId p' = Some S" "messageId p' = Some M"
  shows "unmount (store, c) (''disableTyping:'' @ S @ '':'' @ show_int M) = Some ''1''
    \<and> displayedContent (hk (snd (mount p' (unmount (store, c))))) = content p'
    \<and> timers (hk (snd (mount p' (unmount (store, c))))) = []
    \<and> timeoutRef (hk (snd (mount p' (unmount (store, c))))) = None
    \<and> isTypingComplete (hk (snd (mount p' (unmount (store, c)))))
        = (isComplete p' \<or> shared p')
    \<and> fst (mount p' (unmount (store, c))) (''disableTyping:'' @ S @ '':'' @ show_int M)
        = Some ''1''
    \<and> unmount (mount p' (unmount (store, c))) (''disableTyping:'' @ S @ '':'' @ show_int M)
        = (if isComplete p' \<or> shared p' then None else Some ''1'')
    \<and> (\<forall>p''. chatSessionId p'' = Some S \<and> messageId p'' = Some M
               \<and> (isComplete p'' \<or> shared p'') \<longrightarrow>
          unmount (update p'' (mount p' (unmount (store, c))))
            (''disableTyping:'' @ S @ '':'' @ show_int M) = None)"
proof -
  let ?key = "''disableTyping:'' @ S @ '':'' @ show_int M"
  let ?store1 = "unmount (store, c)"
  let ?w2 = "mount p' ?store1"
  have "closures_current (snd (run es (mount p0 store0)))"
    by (rule run_closures_current) (rule mount_closures_current)
  with reach have cc: "closures_current c" by simp
  have flag: "?store1 ?key = Some ''1''"
    by (rule unmount_mid_typing[OF cc typing ids])
  have hk2: "hk (snd ?w2) =
           initial_hook\<lparr>typingDisabledRef := True, displayedContent := content p',
             lastContentRef := content p',
             isTypingComplete := (isComplete p' \<or> shared p'),
             currentTypingIndexRef := (if isComplete p' \<or> shared p' then length (content p') else 0)\<rparr>"
    by (rule remount_disabled_hook[where store = "unmount (store, c)", OF ids' flag])
  have st2: "fst ?w2 ?key = Some ''1''"
    by (rule remount_store[where store = "unmount (store, c)", OF ids' flag])
  have cc2: "closures_current (snd ?w2)" by (rule mount_closures_current)
  have r2: "chatSessionId (rendered (snd ?w2)) = Some S" "messageId (rendered (snd ?w2)) = Some M"
    using ids' by simp_all
  have un2: "unmount ?w2 ?key = (if isComplete p' \<or> shared p' then None else Some ''1'')"
  proof (cases "isComplete p' \<or> shared p'")
    case True
    then have "isTypingComplete (hk (snd ?w2))" by (simp add: hk2)
    from unmount_after_completion[OF cc2 this r2, of "fst ?w2"] True show ?thesis by simp
  next
    case False
    then have "\<not> isTypingComplete (hk (snd ?w2))" by (simp add: hk2)
    from unmount_mid_typing[OF cc2 this r2, of "fst ?w2"] False show ?thesis by simp
  qed
  have later: "unmount (update p'' ?w2) ?key = None"
    if p'': "chatSessionId p'' = Some S" "messageId p'' = Some M" "isComplete p'' \<or> shared p''"
    for p''
  proof -
    have cc3: "closures_current (snd (update p'' ?w2))"
      by (rule update_closures_current[OF cc2])
    have "isTypingComplete (hk (snd (update p'' (fst ?w2, snd ?w2))))"
      by (rule completion_after_remount) (simp_all add: hk2 p''(3))
    then have fin: "isTypingComplete (hk (snd (update p'' ?w2)))" by simp
    have r3: "chatSessionId (rendered (snd (update p'' ?w2))) = Some S"
      "messageId (rendered (snd (update p'' ?w2))) = Some M"
      using p'' by simp_all
    from unmount_after_completion[OF cc3 fin r3, of "fst (update p'' ?w2)"]
    show ?thesis by simp
  qed
  from flag hk2 st2 un2 later show ?thesis
    by (simp add: initial_hook_def)
qed


text \<open>An instance: session \<^verbatim>\<open>S\<close>, message 7, unmounted after one tick of \<^verbatim>\<open>Hello\<close>.\<close>

theorem C4_interrupt_persistence_witness:
  "unmount (run [Tick] (mount (example_props ''Hello'' False) Map.empty))
     (''disableTyping:'' @ ''S'' @ '':'' @ show_int 7) = Some ''1''
   \<and> displayedContent (hk (snd (mount (example_props ''Hello'' True)
        (unmount (run [Tick] (mount (example_props ''Hello'' False) Map.empty)))))) = ''Hello''
   \<and> unmount (mount (example_props ''Hello'' True)
        (unmount (run [Tick] (mount (example_props ''Hello'' False) Map.empty))))
       (''disableTyping:'' @ ''S'' @ '':'' @ show_int 7) = None"
proof -
  let ?w = "run [Tick] (mount (example_props ''Hello'' False) Map.empty)"
  let ?p' = "example_props ''Hello'' True"
  have reach: "run [Tick] (mount (example_props ''Hello'' False) Map.empty) = (fst ?w, snd ?w)"
    by simp
  have typing: "\<not> isTypingComplete (hk (snd ?w))"
    by code_simp
  have ids: "chatSessionId (rendered (snd ?w)) = Some ''S''" "messageId (rendered (snd ?w)) = Some 7"
    by code_simp+
  have ids': "chatSessionId ?p' = Some ''S''" "messageId ?p' = Some 7"
    by (simp_all add: example_props_def)
  have c: "content ?p' = ''Hello''" "isComplete ?p'"
    by (simp_all add: example_props_def)
  from C4_interrupt_persistence[OF reach typing ids ids'] show ?thesis
    unfolding prod.collapse using c by simp
qed

text \<open>
  C4 as stated fails in its last part: after the remount has processed the synthetic
  completion (typing is complete, the full content is displayed) the flag is still set.
\<close>

theorem C4_interrupt_persistence_counterexample:
  "isTypingComplete (hk (snd (mount (example_props ''Hello'' True)
      (unmount (run [Tick] (mount (example_props ''Hello'' False) Map.empty))))))
   \<and> displayedContent (hk (snd (mount (example_props ''Hello'' True)
      (unmount (run [Tick] (mount (example_props ''Hello'' False) Map.empty)))))) = ''Hello''
   \<and> fst (mount (example_props ''Hello'' True)
        (unmount (run [Tick] (mount (example_props ''Hello'' False) Map.empty))))
       ''disableTyping:S:7'' = Some ''1''"
  by code_simp

section \<open>The typewriter: the reveal index\<close>

lemma hinv_mono:
  "hinv P h \<Longrightarrow> prefix P Q \<Longrightarrow> hinv Q h"
  unfolding hinv_def
  by (meson order_trans prefix_length_le prefix_order.order_trans)

lemma typeNextChar_hinv:
  assumes "timers h = []" and "cl_currentIndex cl = currentTypingIndexRef h"
    and "length (cl_fullContent cl) \<le> length P"
    and "prefix (lastContentRef h) P" and "currentTypingIndexRef h \<le> length P"
  shows "hinv P (typeNextChar cl h)
         \<and> currentTypingIndexRef h \<le> currentTypingIndexRef (typeNextChar cl h)"
proof (cases "cl_currentIndex cl < length (cl_fullContent cl) \<and> \<not> cl_isTypingComplete cl
              \<and> isTypingRef h")
  case False
  then have "typeNextChar cl h = h\<lparr>isTypingRef := False\<rparr>"
    by (auto simp: typeNextChar_def)
  with assms show ?thesis by (simp add: hinv_def)
next
  case True
  let ?i = "Suc (cl_currentIndex cl)"
  let ?full = "filterCitationsForTyping (cl_fullContent cl)"
  have fl: "length ?full \<le> length P"
    using filterCitationsForTyping_length[of "cl_fullContent cl"] assms(3) by simp
  have il: "?i \<le> length P" using True assms(3) by simp
  show ?thesis
  proof (cases "?i < length ?full")
    case True
    with \<open>cl_currentIndex cl < length (cl_fullContent cl) \<and> \<not> cl_isTypingComplete cl
              \<and> isTypingRef h\<close> assms fl il show ?thesis
      by (simp add: typeNextChar_def Let_def setTimeout_def hinv_def)
  next
    case False
    with \<open>cl_currentIndex cl < length (cl_fullContent cl) \<and> \<not> cl_isTypingComplete cl
              \<and> isTypingRef h\<close> assms fl il show ?thesis
      by (simp add: typeNextChar_def Let_def hinv_def)
  qed
qed

lemma typeNextChar_lastContentRef:
  "lastContentRef (typeNextChar cl h) = lastContentRef h"
  by (simp add: typeNextChar_def Let_def setTimeout_def)

lemma continueTyping_hinv:
  assumes "hinv P h" and "length full \<le> length P"
  shows "hinv P (continueTyping rc full (currentTypingIndexRef h) h)
         \<and> currentTypingIndexRef h \<le> currentTypingIndexRef (continueTyping rc full (currentTypingIndexRef h) h)"
proof (cases "isTypingRef h")
  case True
  with assms show ?thesis by (simp add: continueTyping_def)
next
  case False
  with assms(1) have t: "timers h = []" and pre: "prefix (lastContentRef h) P"
    and idx: "currentTypingIndexRef h \<le> length P"
    by (auto simp: hinv_def)
  let ?cl = "\<lparr>cl_fullContent = full, cl_currentIndex = currentTypingIndexRef h,
              cl_isTypingComplete = rc\<rparr>"
  let ?h = "h\<lparr>isTypingRef := True\<rparr>"
  have "hinv P (typeNextChar ?cl ?h)
        \<and> currentTypingIndexRef ?h \<le> currentTypingIndexRef (typeNextChar ?cl ?h)"
    by (rule typeNextChar_hinv) (use t pre idx assms(2) in simp_all)
  with False show ?thesis by (simp add: continueTyping_def)
qed

lemma continueTyping_lastContentRef:
  "lastContentRef (continueTyping rc full i h) = lastContentRef h"
  by (simp add: continueTyping_def typeNextChar_lastContentRef)

lemma hinv_lastContentRef:
  "hinv P h \<Longrightarrow> prefix l P \<Longrightarrow> hinv P (h\<lparr>lastContentRef := l\<rparr>)"
  by (simp add: hinv_def)

lemma content_effect_hinv:
  assumes "hinv P0 h" and "prefix P0 (content p)"
  shows "hinv (content p) (content_effect p rc h)
         \<and> currentTypingIndexRef h \<le> currentTypingIndexRef (content_effect p rc h)"
proof -
  let ?P = "content p"
  from hinv_mono[OF assms] have inv: "hinv ?P h" .
  then have pre: "prefix (lastContentRef h) ?P" by (simp add: hinv_def)
  show ?thesis
  proof (cases "typingDisabledRef h")
    case True
    with inv show ?thesis by (simp add: content_effect_def hinv_def)
  next
    case nd: False
    show ?thesis
    proof (cases "length ?P > length (lastContentRef h)")
      case True
      let ?h1 = "if length (drop (currentTypingIndexRef h) ?P) > 0
                 then continueTyping rc ?P (currentTypingIndexRef h) h else h"
      have a: "hinv ?P ?h1 \<and> currentTypingIndexRef h \<le> currentTypingIndexRef ?h1"
        using continueTyping_hinv[OF inv, of ?P rc] inv by simp
      have l: "lastContentRef ?h1 = lastContentRef h"
        by (simp add: continueTyping_lastContentRef)
      have "content_effect p rc h = ?h1\<lparr>lastContentRef := ?P\<rparr>"
        using nd pre True by (simp add: content_effect_def Let_def)
      with a show ?thesis by (simp add: hinv_lastContentRef)
    next
      case False
      with nd pre have "content_effect p rc h = h"
        by (simp add: content_effect_def)
      with inv show ?thesis by simp
    qed
  qed
qed

lemma completion_effect_hinv:
  assumes "hinv (content p) h"
  shows "hinv (content p) (completion_effect p h)
         \<and> currentTypingIndexRef h \<le> currentTypingIndexRef (completion_effect p h)"
proof (cases "isComplete p \<or> shared p")
  case False
  with assms show ?thesis by (simp add: completion_effect_def)
next
  case True
  from assms have "timers h = [] \<or> (\<exists>i cl. timers h = [(i, cl)] \<and> timeoutRef h = Some i)"
    by (auto simp: hinv_def)
  then have "timers (completion_effect p h) = [] \<or> (timers h = [] \<and> timers (completion_effect p h) = [])"
    using True
    by (auto simp: completion_effect_def showFinalContentWithCitations_def clearTimeout_def
             split: option.splits)
  then have t: "timers (completion_effect p h) = []" by blast
  have "lastContentRef (completion_effect p h) = lastContentRef h"
    and "currentTypingIndexRef (completion_effect p h) = length (content p)"
    using True
    by (auto simp: completion_effect_def showFinalContentWithCitations_def clearTimeout_def
             split: option.splits)
  with t assms show ?thesis by (simp add: hinv_def)
qed


lemma update_winv:
  assumes "winv w" and "prefix (content (rendered (snd w))) (content p')"
  shows "winv (update p' w) \<and> revealIndex w \<le> revealIndex (update p' w)"
proof -
  define p where "p = rendered (snd w)"
  define h where "h = hk (snd w)"
  define ce where "ce \<longleftrightarrow> content p' \<noteq> content p \<or> isComplete p' \<noteq> isComplete p"
  define cm where "cm \<longleftrightarrow> isComplete p' \<noteq> isComplete p \<or> shared p' \<noteq> shared p
                \<or> content p' \<noteq> content p \<or> chatSessionId p' \<noteq> chatSessionId p"
  define h1 where "h1 = (if ce then content_effect p' (isTypingComplete h) h else h)"
  define h2 where "h2 = (if cm then completion_effect p' h1 else h1)"
  from assms(1) have inv: "hinv (content p) h" by (simp add: winv_def p_def h_def)
  from assms(2) have pre: "prefix (content p) (content p')" by (simp add: p_def)
  have 1: "hinv (content p') h1 \<and> currentTypingIndexRef h \<le> currentTypingIndexRef h1"
  proof (cases ce)
    case True
    with content_effect_hinv[OF inv pre] show ?thesis by (simp add: h1_def)
  next
    case False
    with hinv_mono[OF inv pre] show ?thesis by (simp add: h1_def)
  qed
  have 2: "hinv (content p') h2 \<and> currentTypingIndexRef h1 \<le> currentTypingIndexRef h2"
  proof (cases cm)
    case True
    with completion_effect_hinv[of p' h1] 1 show ?thesis by (simp add: h2_def)
  next
    case False
    with 1 show ?thesis by (simp add: h2_def)
  qed
  have "hk (snd (update p' w)) = h2"
    unfolding h2_def h1_def ce_def cm_def p_def h_def by (simp add: update_hk Let_def)
  with 1 2 show ?thesis
    by (simp add: winv_def revealIndex_def h_def)
qed

lemma tick_winv:
  assumes "winv w"
  shows "winv (tick w) \<and> revealIndex w \<le> revealIndex (tick w)"
proof (cases "timers (hk (snd w))")
  case Nil
  with assms show ?thesis by (cases w) (simp add: tick_def)
next
  case (Cons t ts)
  obtain i cl where t: "t = (i, cl)" by (cases t)
  let ?h = "hk (snd w)"
  let ?P = "content (rendered (snd w))"
  from assms Cons t have ts: "ts = []" and idx: "cl_currentIndex cl = currentTypingIndexRef ?h"
    and len: "length (cl_fullContent cl) \<le> length ?P"
    and pre: "prefix (lastContentRef ?h) ?P" and il: "currentTypingIndexRef ?h \<le> length ?P"
    by (auto simp: winv_def hinv_def)
  have "hinv ?P (typeNextChar cl (?h\<lparr>timers := []\<rparr>))
        \<and> currentTypingIndexRef (?h\<lparr>timers := []\<rparr>)
            \<le> currentTypingIndexRef (typeNextChar cl (?h\<lparr>timers := []\<rparr>))"
    by (rule typeNextChar_hinv) (use idx len pre il in simp_all)
  moreover have "hk (snd (tick w)) = typeNextChar cl (?h\<lparr>timers := []\<rparr>)"
    using Cons t ts by (cases w) (simp add: tick_def)
  ultimately show ?thesis
    by (simp add: winv_def revealIndex_def)
qed

lemma hidden_winv:
  assumes "winv w"
  shows "winv (visibility_hidden w) \<and> revealIndex w \<le> revealIndex (visibility_hidden w)"
proof -
  have "hk (snd (visibility_hidden w)) = on_hidden (snd w) (hk (snd w))"
    by (cases w) (simp add: visibility_hidden_def)
  with assms show ?thesis
    by (simp add: winv_def revealIndex_def on_hidden_def hinv_def)
qed

lemma caller_sets_winv:
  assumes "winv w"
  shows "winv (caller_sets d k w) \<and> revealIndex w \<le> revealIndex (caller_sets d k w)"
proof -
  have "hk (snd (caller_sets d k w)) =
          (let h1 = (case d of None \<Rightarrow> hk (snd w)
                     | Some s \<Rightarrow> (hk (snd w))\<lparr>displayedContent := s\<rparr>)
           in case k of None \<Rightarrow> h1 | Some b \<Rightarrow> h1\<lparr>isTypingComplete := b\<rparr>)"
    by (cases w) (auto simp: caller_sets_def Let_def split: option.splits)
  with assms show ?thesis
    by (simp add: winv_def revealIndex_def hinv_def Let_def split: option.splits)
qed

lemma mount_effect_hinv:
  "hinv (content p) (mount_effect p store initial_hook)"
  by (simp add: mount_effect_def initial_hook_def hinv_def split: option.splits)

lemma mount_winv:
  "winv (mount p store)"
proof -
  let ?h1 = "mount_effect p store initial_hook"
  have 1: "hinv (content p) (content_effect p False ?h1)"
    using content_effect_hinv[OF mount_effect_hinv[of p store] prefix_order.refl, of False]
    by simp
  have "hk (snd (mount p store)) = completion_effect p (content_effect p False ?h1)"
    by (simp add: mount_def Let_def)
  with completion_effect_hinv[OF 1] show ?thesis
    by (simp add: winv_def)
qed

lemma run_extension:
  "winv w \<Longrightarrow> updates_extend (content (rendered (snd w))) (es1 @ es2) \<Longrightarrow>
   Visible \<notin> set es1 \<Longrightarrow>
   winv (run es1 w) \<and> revealIndex w \<le> revealIndex (run es1 w)
   \<and> updates_extend (content (rendered (snd (run es1 w)))) es2"
proof (induction es1 arbitrary: w)
  case Nil
  then show ?case by simp
next
  case (Cons e es1)
  from Cons.prems(3) have nv: "Visible \<notin> set es1" and ne: "e \<noteq> Visible" by auto
  show ?case
  proof (cases e)
    case (Update p')
    with Cons.prems have pre: "prefix (content (rendered (snd w))) (content p')"
      and ext: "updates_extend (content p') (es1 @ es2)" by simp_all
    from update_winv[OF Cons.prems(1) pre]
    have w': "winv (update p' w)" and le: "revealIndex w \<le> revealIndex (update p' w)" by simp_all
    from Cons.IH[OF w' _ nv] ext le Update show ?thesis by fastforce
  next
    case Tick
    with Cons.prems have ext: "updates_extend (content (rendered (snd w))) (es1 @ es2)" by simp
    from tick_winv[OF Cons.prems(1)]
    have w': "winv (tick w)" and le: "revealIndex w \<le> revealIndex (tick w)" by simp_all
    from Cons.IH[OF w' _ nv] ext le Tick show ?thesis by fastforce
  next
    case Hidden
    with Cons.prems have ext: "updates_extend (content (rendered (snd w))) (es1 @ es2)" by simp
    from hidden_winv[OF Cons.prems(1)]
    have w': "winv (visibility_hidden w)"
      and le: "revealIndex w \<le> revealIndex (visibility_hidden w)" by simp_all
    from Cons.IH[OF w' _ nv] ext le Hidden show ?thesis by fastforce
  next
    case Visible
    with ne show ?thesis by simp
  next
    case (CallerSets d k)
    with Cons.prems have ext: "updates_extend (content (rendered (snd w))) (es1 @ es2)" by simp
    from caller_sets_winv[OF Cons.prems(1)]
    have w': "winv (caller_sets d k w)"
      and le: "revealIndex w \<le> revealIndex (caller_sets d k w)" by simp_all
    from Cons.IH[OF w' _ nv] ext le CallerSets show ?thesis by fastforce
  qed
qed

text \<open>
  As long as the tab does not become visible again, the reveal index never decreases:
  for every mount and every sequence of updates that each extend the previous content,
  interleaved with timer ticks, calls of the setters by the caller and the tab being
  hidden, the index after any part of the sequence is at most the index after any longer
  part.
\<close>

lemma reveal_index_monotone_without_restore:
  assumes "updates_extend (content p) (es1 @ es2)" and "Visible \<notin> set (es1 @ es2)"
  shows "revealIndex (run es1 (mount p store)) \<le> revealIndex (run (es1 @ es2) (mount p store))"
proof -
  let ?w0 = "mount p store"
  from assms(2) have nv1: "Visible \<notin> set es1" and nv2: "Visible \<notin> set es2" by auto
  have ext: "updates_extend (content (rendered (snd ?w0))) (es1 @ es2)"
    using assms(1) by simp
  from run_extension[OF mount_winv ext nv1]
  have w1: "winv (run es1 ?w0)"
    and ext2: "updates_extend (content (rendered (snd (run es1 ?w0)))) (es2 @ [])"
    by simp_all
  from run_extension[OF w1 ext2 nv2] show ?thesis
    by (simp add: run_append)
qed

text \<open>
  C5 (the code departs from the claim). The content \<^verbatim>\<open>He\<close> is delivered and typed to its
  end, so the reveal index is 2; the tab is hidden and becomes visible again; then the
  content is extended to \<^verbatim>\<open>Hello\<close>. Every update of this sequence extends the content
  before it. When the tab becomes visible the listener calls
  \<^verbatim>\<open>startTyping(content, displayedContent.length)\<close> with the displayed text that its closure
  captured at the render of \<^verbatim>\<open>He\<close>, the empty string, and \<open>startTyping\<close> sets the index
  to 0; it also sets \<^verbatim>\<open>isTypingRef\<close>, so the extension to \<^verbatim>\<open>Hello\<close> does not type and the
  index stays 0.
\<close>

theorem C5_reveal_index_reset:
  "updates_extend (content (example_props [] False))
      [Update (example_props ''He'' False), Tick, Hidden, Visible,
       Update (example_props ''Hello'' False)]
   \<and> revealIndex (run [Update (example_props ''He'' False), Tick, Hidden]
         (mount (example_props [] False) Map.empty)) = 2
   \<and> revealIndex (run [Update (example_props ''He'' False), Tick, Hidden, Visible]
         (mount (example_props [] False) Map.empty)) = 0
   \<and> revealIndex (run [Update (example_props ''He'' False), Tick, Hidden, Visible,
                       Update (example_props ''Hello'' False)]
         (mount (example_props [] False) Map.empty)) = 0"
  by code_simp

section \<open>The typewriter: the tab becomes visible again\<close>

text \<open>
  \<open>startTyping\<close> sets \<^verbatim>\<open>isTypingRef\<close> and then calls \<open>continueTyping\<close>, which returns at
  once because the ref is set: no character is typed and no timer is scheduled, so
  the listener never adds a timer.
\<close>

lemma startTyping_timers:
  "timers (startTyping rc full i h) = timers h"
  by (simp add: startTyping_def continueTyping_def)

lemma on_visible_timers:
  "set (timers (on_visible c h)) \<subseteq> set (timers h)"
  by (auto simp: on_visible_def Let_def startTyping_timers clearTimeout_def
        split: option.splits)

text \<open>
  C9 (the code departs from the claim). First run: the stream delivers \<^verbatim>\<open>He\<close> and then
  \<^verbatim>\<open>Hello\<close> while \<^verbatim>\<open>He\<close> is being typed, and the chain of \<^verbatim>\<open>He\<close> ends, so the reveal
  index is 2 of 5 and no timer is pending; the tab is hidden and becomes visible again.
  The listener sets the index back to 1 (the length of the displayed text that its
  closure captured), sets \<^verbatim>\<open>isTypingRef\<close> and schedules nothing: typing does not resume,
  and neither a later tick nor a later extension of the content types anything. Second
  run: a content whose filtered text is the single character \<^verbatim>\<open>A\<close> is typed to index 1
  of 16; on becoming visible the index is set to 0, and again no timer is scheduled.
\<close>

theorem C9_visibility_restore_stalls:
  "revealIndex (run [Update (example_props ''He'' False), Update (example_props ''Hello'' False),
                     Tick, Hidden]
     (mount (example_props [] False) Map.empty)) = 2
   \<and> timers (hk (snd (run [Update (example_props ''He'' False), Update (example_props ''Hello'' False),
                            Tick, Hidden]
     (mount (example_props [] False) Map.empty)))) = []
   \<and> revealIndex (run [Update (example_props ''He'' False), Update (example_props ''Hello'' False),
                       Tick, Hidden, Visible]
     (mount (example_props [] False) Map.empty)) = 1
   \<and> timers (hk (snd (run [Update (example_props ''He'' False), Update (example_props ''Hello'' False),
                            Tick, Hidden, Visible]
     (mount (example_props [] False) Map.empty)))) = []
   \<and> displayedContent (hk (snd (run [Update (example_props ''He'' False),
                                      Update (example_props ''Hello'' False),
                                      Tick, Hidden, Visible, Tick,
                                      Update (example_props ''Hello!'' False), Tick]
     (mount (example_props [] False) Map.empty)))) = ''He''
   \<and> revealIndex (run [Hidden] (mount (example_props ''A[[1]](http://x)'' False) Map.empty)) = 1
   \<and> timers (hk (snd (run [Hidden]
         (mount (example_props ''A[[1]](http://x)'' False) Map.empty)))) = []
   \<and> revealIndex (run [Hidden, Visible]
         (mount (example_props ''A[[1]](http://x)'' False) Map.empty)) = 0
   \<and> timers (hk (snd (run [Hidden, Visible]
         (mount (example_props ''A[[1]](http://x)'' False) Map.empty)))) = []"
  by code_simp

end
